theory Spec2Isabelle
  imports Complex_Main "HOL-Library.AList" "HOL-Library.Multiset" "HOL-Library.Log_Nat"
begin

section \<open>The boat simulator of KafkaBoatSimulator.py\<close>

text \<open>
  A shallow embedding of \<^verbatim>\<open>src/KafkaBoatSimulator.py\<close>: the capacity computation
  \<^verbatim>\<open>calculate_boats_per_thread\<close>, the class \<^verbatim>\<open>BoatSimulationState\<close>, the claim phase
  and the round loop of \<^verbatim>\<open>worker_thread_simulation\<close>, and the loop over the futures that
  adds the workers' counts. Console output is left out. Exceptions are values of
  \<open>py_error\<close>.
\<close>

datatype py_error = ZeroDivisionError | OverflowError | FileNotFoundError | PublishError

subsection \<open>Capacity of a worker\<close>

text \<open>
  The globals \<^verbatim>\<open>N_BOATS\<close> and \<^verbatim>\<open>MAX_WORKER_THREADS\<close> are the two arguments;
  \<^verbatim>\<open>//\<close> by zero raises. The product \<^verbatim>\<open>base_boats_per_thread * buffer_factor\<close> is
  a product of an int and a float: the int is converted to a double, the doubles are
  multiplied, and \<^verbatim>\<open>int(...)\<close> truncates the result.

  \<open>round_to_double\<close> is the integer nearest to \<open>n\<close> that has a significand of 53 bits,
  ties going to the even significand. The conversion of an int to a float raises
  \<^verbatim>\<open>OverflowError\<close> when that integer is \<open>2^1024\<close> or more. A float is its exact value,
  or infinite. The product is needed only for an integer-valued \<open>x\<close> and a factor 1.5 or
  1.0; then \<open>2 * x * y\<close> is an integer, and rounding it to 53 bits and halving it is
  rounding the product (halves are doubles below \<open>2^52\<close>); a float product that leaves the
  range is infinite, and \<^verbatim>\<open>int\<close> of an infinite float raises \<^verbatim>\<open>OverflowError\<close>.
\<close>

definition round_to_double :: "int \<Rightarrow> int" where
  "round_to_double n =
     (let a = \<bar>n\<bar>; len = bitlen a
      in if len \<le> 53 then n
         else
           let s = nat (len - 53);
               q = a div 2 ^ s;
               r = a mod 2 ^ s;
               q = (if 2 * r > 2 ^ s \<or> (2 * r = 2 ^ s \<and> odd q) then q + 1 else q)
           in sgn n * (q * 2 ^ s))"

datatype py_float = Finite real | Infinite

definition float_of_int :: "int \<Rightarrow> py_error + real" where
  "float_of_int n =
     (let x = round_to_double n
      in if \<bar>x\<bar> \<ge> 2 ^ 1024 then Inl OverflowError else Inr (of_int x))"

definition float_mul :: "real \<Rightarrow> real \<Rightarrow> py_float" where
  "float_mul x y =
     (let t = round_to_double \<lfloor>2 * (x * y)\<rfloor>
      in if \<bar>t\<bar> \<ge> 2 ^ 1025 then Infinite else Finite (of_int t / 2))"

definition py_int :: "py_float \<Rightarrow> py_error + int" where
  "py_int x = (case x of
                 Infinite \<Rightarrow> Inl OverflowError
               | Finite r \<Rightarrow> Inr (if 0 \<le> r then \<lfloor>r\<rfloor> else \<lceil>r\<rceil>))"

definition buffer_factor :: "int \<Rightarrow> int \<Rightarrow> real" where
  "buffer_factor N_BOATS MAX_WORKER_THREADS = (if N_BOATS > MAX_WORKER_THREADS then 1.5 else 1.0)"

definition calculate_boats_per_thread :: "int \<Rightarrow> int \<Rightarrow> py_error + int" where
  "calculate_boats_per_thread N_BOATS MAX_WORKER_THREADS =
     (if MAX_WORKER_THREADS = 0 then Inl ZeroDivisionError
      else
        let base_boats_per_thread = max 1 (N_BOATS div MAX_WORKER_THREADS)
        in case float_of_int base_boats_per_thread of
             Inl e \<Rightarrow> Inl e
           | Inr x \<Rightarrow>
               (case py_int (float_mul x (buffer_factor N_BOATS MAX_WORKER_THREADS)) of
                  Inl e \<Rightarrow> Inl e
                | Inr i \<Rightarrow>
                    let bpt = max 1 i;
                        bpt = min bpt 50;
                        bpt = max bpt 1
                    in Inr bpt))"

text \<open>The formula of the specification, in its own words: clamp of a ceiling.\<close>

definition clamp :: "int \<Rightarrow> int \<Rightarrow> int \<Rightarrow> int" where
  "clamp x lo hi = max lo (min hi x)"

definition spec_capacity :: "int \<Rightarrow> int \<Rightarrow> int" where
  "spec_capacity N W = clamp \<lceil>of_int N / of_int W * buffer_factor N W\<rceil> 1 50"

subsection \<open>Rows and the entity state\<close>

text \<open>
  A row is what \<^verbatim>\<open>csv.DictReader\<close> yields: an insertion-ordered dictionary from field
  names to strings, here an association list; \<^verbatim>\<open>row[k] = v\<close> is \<open>AList.update\<close>.
  A file system maps a path to the data rows of the file (the rows after the header).
\<close>

type_synonym row = "(string \<times> string) list"

type_synonym file_system = "string \<Rightarrow> row list option"

record boat =
  boat_id :: int
  file_path :: string
  start_row :: int
  end_row :: int
  topic_name :: string
  unique_boat_id :: string
  original_boat :: string
  data_lines :: "row list"
  current_index :: nat
  sent_count :: nat
  last_send_time :: int
  completed :: bool

text \<open>\<^verbatim>\<open>f"BOAT_{boat_id:03d}"\<close>: decimal digits, zero-padded to width three, sign first.\<close>

fun dec_digits :: "nat \<Rightarrow> string" where
  "dec_digits n =
     (if n < 10 then [''0123456789'' ! n]
      else dec_digits (n div 10) @ [''0123456789'' ! (n mod 10)])"

definition format_03d :: "int \<Rightarrow> string" where
  "format_03d i =
     (let sign = (if i < 0 then ''-'' else []);
          ds = dec_digits (nat \<bar>i\<bar>)
      in sign @ replicate (3 - length sign - length ds) (CHR ''0'') @ ds)"

text \<open>\<^verbatim>\<open>file_path.split('/')[-1].replace('.csv', '')\<close>.\<close>

definition last_component :: "string \<Rightarrow> string" where
  "last_component s = rev (takeWhile (\<lambda>c. c \<noteq> CHR ''/'') (rev s))"

function remove_csv :: "string \<Rightarrow> string" where
  "remove_csv s =
     (if s = [] then []
      else if take 4 s = ''.csv'' then remove_csv (drop 4 s)
      else hd s # remove_csv (tl s))"
  by pat_completeness auto
termination
  by (relation "measure length") auto

text \<open>
  \<^verbatim>\<open>load_data\<close>: \<^verbatim>\<open>next(reader, None)\<close> is called \<^verbatim>\<open>start_row\<close> times (not at all when
  \<^verbatim>\<open>start_row\<close> is negative) and does nothing at the end of the file; then rows are
  appended until the index reaches \<^verbatim>\<open>end_row - start_row\<close> or the file ends.
\<close>

primrec skip_rows :: "nat \<Rightarrow> 'a list \<Rightarrow> 'a list" where
  "skip_rows 0 reader = reader"
| "skip_rows (Suc n) reader = skip_rows n (case reader of [] \<Rightarrow> [] | _ # rest \<Rightarrow> rest)"

fun read_rows :: "int \<Rightarrow> int \<Rightarrow> 'a list \<Rightarrow> 'a list \<Rightarrow> 'a list" where
  "read_rows i n_rows [] acc = acc"
| "read_rows i n_rows (r # reader) acc =
     (if i \<ge> n_rows then acc else read_rows (i + 1) n_rows reader (acc @ [r]))"

definition load_data :: "file_system \<Rightarrow> string \<Rightarrow> int \<Rightarrow> int \<Rightarrow> py_error + row list" where
  "load_data files path start_r end_r =
     (case files path of
        None \<Rightarrow> Inl FileNotFoundError
      | Some rows \<Rightarrow> Inr (read_rows 0 (end_r - start_r) (skip_rows (nat start_r) rows) []))"

text \<open>The constructor \<^verbatim>\<open>BoatSimulationState.__init__\<close>; it fails when the file cannot be opened.\<close>

definition BoatSimulationState ::
  "file_system \<Rightarrow> int \<Rightarrow> string \<Rightarrow> int \<Rightarrow> int \<Rightarrow> string \<Rightarrow> py_error + boat" where
  "BoatSimulationState files bid path start_r end_r topic =
     (case load_data files path start_r end_r of
        Inl e \<Rightarrow> Inl e
      | Inr rows \<Rightarrow>
          Inr \<lparr> boat_id = bid, file_path = path, start_row = start_r, end_row = end_r,
                topic_name = topic,
                unique_boat_id = ''BOAT_'' @ format_03d bid,
                original_boat = remove_csv (last_component path),
                data_lines = rows,
                current_index = 0, sent_count = 0, last_send_time = 0,
                completed = False \<rparr>)"

definition has_next_message :: "boat \<Rightarrow> bool" where
  "has_next_message b \<longleftrightarrow> current_index b < length (data_lines b) \<and> \<not> completed b"

text \<open>
  Time is counted in whole milliseconds: \<^verbatim>\<open>time.time()\<close> is the argument \<open>now\<close>, and the
  interval of 0.05 seconds is 50.
\<close>

definition can_send_now :: "boat \<Rightarrow> int \<Rightarrow> bool" where
  "can_send_now b now \<longleftrightarrow> now - last_send_time b \<ge> 50"

text \<open>
  \<^verbatim>\<open>get_next_message\<close> reads the clock twice: \<open>stamp\<close> is the formatted UTC instant written
  into the row, \<open>now\<close> the value of \<^verbatim>\<open>time.time()\<close> stored as the last send time.
\<close>

definition get_next_message :: "boat \<Rightarrow> string \<Rightarrow> int \<Rightarrow> row option \<times> boat" where
  "get_next_message b stamp now =
     (if \<not> has_next_message b then (None, b)
      else
        let row = data_lines b ! current_index b;
            row = AList.update ''time'' stamp row;
            row = AList.update ''timestamp'' stamp row;
            row = AList.update ''boat'' (unique_boat_id b) row;
            b = b\<lparr>current_index := current_index b + 1\<rparr>;
            b = b\<lparr>sent_count := sent_count b + 1\<rparr>;
            b = b\<lparr>last_send_time := now\<rparr>;
            b = (if current_index b \<ge> length (data_lines b) then b\<lparr>completed := True\<rparr> else b)
        in (Some row, b))"

text \<open>The operations of the entity state machine, for runs of arbitrary calls.\<close>

datatype entity_op = HasPending | CanEmit int | TakeNext string int

fun apply_entity_op :: "boat \<Rightarrow> entity_op \<Rightarrow> boat" where
  "apply_entity_op b HasPending = (let _ = has_next_message b in b)"
| "apply_entity_op b (CanEmit now) = (let _ = can_send_now b now in b)"
| "apply_entity_op b (TakeNext stamp now) = snd (get_next_message b stamp now)"

definition run_entity_ops :: "boat \<Rightarrow> entity_op list \<Rightarrow> boat" where
  "run_entity_ops b ops = foldl apply_entity_op b ops"

subsection \<open>The worker: claim phase and round loop\<close>

text \<open>
  The state a worker threads through its round loop: the clock (milliseconds), the messages
  its producer has accepted, and the local counter \<^verbatim>\<open>total_messages_sent\<close>.
  \<^verbatim>\<open>producer.produce\<close> is the parameter \<open>accepts\<close>: given the messages produced so far and
  the next one, it says whether the call returns; when it does not, the call raises.
  \<^verbatim>\<open>strftime\<close> is the parameter \<open>fmt\<close>. \<^verbatim>\<open>json.dumps\<close> of a row of strings does not fail,
  and a message is identified with its row. Creating the producer and stopping it are
  left out.
\<close>

record worker_state =
  clock :: int
  produced :: "row list"
  total_messages_sent :: nat

type_synonym sink = "row list \<Rightarrow> row \<Rightarrow> bool"

text \<open>
  What one pass through the body of the inner loop did, kept for the theorems only:
  whether \<^verbatim>\<open>has_next_message\<close> held, how often \<^verbatim>\<open>time.sleep\<close> was called, and the
  message handed to \<^verbatim>\<open>producer.produce\<close>, if any.
\<close>

record visit =
  v_pending :: bool
  v_slept :: nat
  v_sent :: "row option"

text \<open>
  \<^verbatim>\<open>while not boat_state.can_send_now(): time.sleep(0.001)\<close>. Each sleep advances the
  clock by one millisecond; nothing else does.
\<close>

function spin_wait :: "boat \<Rightarrow> int \<Rightarrow> nat \<Rightarrow> int \<times> nat" where
  "spin_wait b clk slept =
     (if can_send_now b clk then (clk, slept) else spin_wait b (clk + 1) (slept + 1))"
  by pat_completeness auto
termination
  by (relation "measure (\<lambda>(b, clk, slept). nat (last_send_time b + 50 - clk))")
     (auto simp: can_send_now_def)

declare spin_wait.simps [simp del]

text \<open>
  The body of the inner loop for one boat. The result is the boat, the worker state, the
  record of the visit, and the exception raised by \<^verbatim>\<open>produce\<close>, if any: nothing in
  \<^verbatim>\<open>worker_thread_simulation\<close> catches it. \<^verbatim>\<open>if message_data:\<close> is false for \<^verbatim>\<open>None\<close>
  and for an empty dictionary.
\<close>

definition visit_boat ::
  "sink \<Rightarrow> (int \<Rightarrow> string) \<Rightarrow> boat \<Rightarrow> worker_state
     \<Rightarrow> boat \<times> worker_state \<times> visit \<times> py_error option" where
  "visit_boat accepts fmt boat_state ws =
     (if \<not> has_next_message boat_state
      then (boat_state, ws, \<lparr>v_pending = False, v_slept = 0, v_sent = None\<rparr>, None)
      else
        let (clk, slept) = spin_wait boat_state (clock ws) 0;
            (message_data, boat_state) = get_next_message boat_state (fmt clk) clk;
            ws = ws\<lparr>clock := clk\<rparr>
        in case message_data of
             None \<Rightarrow>
               (boat_state, ws, \<lparr>v_pending = True, v_slept = slept, v_sent = None\<rparr>, None)
           | Some message \<Rightarrow>
               if message = []
               then (boat_state, ws, \<lparr>v_pending = True, v_slept = slept, v_sent = None\<rparr>, None)
               else if accepts (produced ws) message
               then (boat_state,
                     ws\<lparr>produced := produced ws @ [message],
                        total_messages_sent := total_messages_sent ws + 1\<rparr>,
                     \<lparr>v_pending = True, v_slept = slept, v_sent = Some message\<rparr>, None)
               else (boat_state, ws,
                     \<lparr>v_pending = True, v_slept = slept, v_sent = Some message\<rparr>,
                     Some PublishError))"

text \<open>\<^verbatim>\<open>for boat_state in local_boats\<close>: one round. An exception ends the loop.\<close>

fun inner_loop ::
  "sink \<Rightarrow> (int \<Rightarrow> string) \<Rightarrow> boat list \<Rightarrow> worker_state
     \<Rightarrow> boat list \<times> worker_state \<times> visit list \<times> py_error option" where
  "inner_loop accepts fmt [] ws = ([], ws, [], None)"
| "inner_loop accepts fmt (boat_state # rest) ws =
     (case visit_boat accepts fmt boat_state ws of
        (b', ws', v, Some exc) \<Rightarrow> (b' # rest, ws', [v], Some exc)
      | (b', ws', v, None) \<Rightarrow>
          (case inner_loop accepts fmt rest ws' of
             (rest', ws'', vs, exc) \<Rightarrow> (b' # rest', ws'', v # vs, exc)))"

text \<open>\<^verbatim>\<open>for round_index in range(max_rounds)\<close>, over the list of round indices.\<close>

fun round_loop ::
  "sink \<Rightarrow> (int \<Rightarrow> string) \<Rightarrow> nat list \<Rightarrow> boat list \<Rightarrow> worker_state
     \<Rightarrow> boat list \<times> worker_state \<times> visit list list \<times> py_error option" where
  "round_loop accepts fmt [] local_boats ws = (local_boats, ws, [], None)"
| "round_loop accepts fmt (round_index # later) local_boats ws =
     (case inner_loop accepts fmt local_boats ws of
        (bs', ws', vs, Some exc) \<Rightarrow> (bs', ws', [vs], Some exc)
      | (bs', ws', vs, None) \<Rightarrow>
          (case round_loop accepts fmt later bs' ws' of
             (bs'', ws'', vss, exc) \<Rightarrow> (bs'', ws'', vs # vss, exc)))"

definition max_rounds :: "boat list \<Rightarrow> nat" where
  "max_rounds local_boats = fold (\<lambda>boat m. max m (length (data_lines boat))) local_boats 0"

text \<open>
  The part of \<^verbatim>\<open>worker_thread_simulation\<close> after the claim phase, on the boats the worker
  acquired. \<open>ret\<close> is the value the future holds: the count, or the exception.
\<close>

record outcome =
  ret :: "py_error + nat"
  final_boats :: "boat list"
  final_state :: worker_state
  rounds_log :: "visit list list"

definition worker_thread_simulation ::
  "sink \<Rightarrow> (int \<Rightarrow> string) \<Rightarrow> boat list \<Rightarrow> int \<Rightarrow> outcome" where
  "worker_thread_simulation accepts fmt local_boats clock0 =
     (let ws0 = \<lparr>clock = clock0, produced = [], total_messages_sent = 0\<rparr>
      in if local_boats = []
         then \<lparr>ret = Inr 0, final_boats = [], final_state = ws0, rounds_log = []\<rparr>
         else
           case round_loop accepts fmt [0..<max_rounds local_boats] local_boats ws0 of
             (bs, ws, vss, exc) \<Rightarrow>
               \<lparr>ret = (case exc of None \<Rightarrow> Inr (total_messages_sent ws) | Some e \<Rightarrow> Inl e),
                final_boats = bs, final_state = ws, rounds_log = vss\<rparr>)"

text \<open>
  The claim phase. The queue is shared; \<^verbatim>\<open>get_nowait\<close> is atomic. A configuration holds
  the queue and, for each worker, its \<^verbatim>\<open>local_boats\<close> and whether it has left the
  \<^verbatim>\<open>while\<close> loop. One step is one iteration of that loop by worker \<open>i\<close>; a schedule is
  the order in which the workers take their steps.
\<close>

record claim_cfg =
  boat_queue :: "boat list"
  workers :: "(boat list \<times> bool) list"

definition claim_step :: "int \<Rightarrow> claim_cfg \<Rightarrow> nat \<Rightarrow> claim_cfg" where
  "claim_step BOATS_PER_THREAD cfg i =
     (if i \<ge> length (workers cfg) then cfg
      else
        let (local_boats, left) = workers cfg ! i
        in if left then cfg
           else if int (length local_boats) < BOATS_PER_THREAD
           then (case boat_queue cfg of
                   [] \<Rightarrow> cfg\<lparr>workers := (workers cfg)[i := (local_boats, True)]\<rparr>
                 | boat_state # rest \<Rightarrow>
                     cfg\<lparr>boat_queue := rest,
                         workers := (workers cfg)[i := (local_boats @ [boat_state], False)]\<rparr>)
           else cfg\<lparr>workers := (workers cfg)[i := (local_boats, True)]\<rparr>)"

definition claim_phase :: "int \<Rightarrow> nat \<Rightarrow> boat list \<Rightarrow> nat list \<Rightarrow> claim_cfg" where
  "claim_phase BOATS_PER_THREAD W queue0 schedule =
     foldl (claim_step BOATS_PER_THREAD)
       \<lparr>boat_queue = queue0, workers = replicate W ([], False)\<rparr> schedule"

definition all_left :: "claim_cfg \<Rightarrow> bool" where
  "all_left cfg \<longleftrightarrow> list_all snd (workers cfg)"

definition claimed :: "claim_cfg \<Rightarrow> boat list list" where
  "claimed cfg = map fst (workers cfg)"

subsection \<open>The run: workers and the sum of their counts\<close>

text \<open>
  \<^verbatim>\<open>for future in as_completed(futures)\<close>: a count is added, an exception is printed and
  the loop goes on.
\<close>

definition collect_results :: "outcome list \<Rightarrow> nat" where
  "collect_results outs =
     foldl (\<lambda>total_messages out.
              case ret out of
                Inr messages_sent \<Rightarrow> total_messages + messages_sent
              | Inl exc \<Rightarrow> total_messages) 0 outs"

text \<open>
  After the claim phase a worker touches its own boats only, so the workers are run one
  by one, each on its batch.
\<close>

definition run_workers ::
  "sink \<Rightarrow> (int \<Rightarrow> string) \<Rightarrow> int \<Rightarrow> boat list list \<Rightarrow> outcome list" where
  "run_workers accepts fmt clock0 batches =
     map (\<lambda>local_boats. worker_thread_simulation accepts fmt local_boats clock0) batches"

subsection \<open>Invariant of the entity state and concrete inputs\<close>

text \<open>
  The cursor never passes the end of the loaded rows, and the flag \<^verbatim>\<open>completed\<close> is set
  exactly when a non-empty row sequence has been emitted to its end.
\<close>

definition entity_inv :: "boat \<Rightarrow> bool" where
  "entity_inv b \<longleftrightarrow> current_index b \<le> length (data_lines b)
     \<and> (completed b \<longleftrightarrow> current_index b = length (data_lines b) \<and> data_lines b \<noteq> [])"

text \<open>A file of two rows, and boats as the constructor builds them, used as inputs below.\<close>

definition example_row :: row where
  "example_row = [(''boat'', ''ITA''), (''time'', ''t0''), (''speed'', ''12'')]"

definition example_files :: file_system where
  "example_files path =
     (if path = ''orderedData/ITA.csv'' then Some [example_row, example_row] else None)"

definition example_boat :: "nat \<Rightarrow> nat \<Rightarrow> boat" where
  "example_boat i n =
     \<lparr> boat_id = int i, file_path = ''orderedData/ITA.csv'', start_row = 0, end_row = int n,
       topic_name = ''boat_data'', unique_boat_id = ''BOAT_'' @ format_03d (int i),
       original_boat = ''ITA'', data_lines = replicate n example_row, current_index = 0,
       sent_count = 0, last_send_time = 0, completed = False \<rparr>"

definition empty_window_boat :: boat where
  "empty_window_boat =
     \<lparr> boat_id = 1, file_path = ''orderedData/ITA.csv'', start_row = 5, end_row = 9,
       topic_name = ''boat_data'', unique_boat_id = ''BOAT_001'',
       original_boat = ''ITA'', data_lines = [], current_index = 0,
       sent_count = 0, last_send_time = 0, completed = False \<rparr>"

definition short_window_boat :: boat where
  "short_window_boat =
     \<lparr> boat_id = 1, file_path = ''orderedData/ITA.csv'', start_row = 0, end_row = 5,
       topic_name = ''boat_data'', unique_boat_id = ''BOAT_001'',
       original_boat = ''ITA'', data_lines = [example_row, example_row], current_index = 0,
       sent_count = 0, last_send_time = 0, completed = False \<rparr>"

definition negative_start_boat :: boat where
  "negative_start_boat =
     \<lparr> boat_id = 1, file_path = ''orderedData/ITA.csv'', start_row = - 1, end_row = 5,
       topic_name = ''boat_data'', unique_boat_id = ''BOAT_001'',
       original_boat = ''ITA'', data_lines = [example_row, example_row], current_index = 0,
       sent_count = 0, last_send_time = 0, completed = False \<rparr>"

text \<open>A sink that refuses every message of the boat \<open>BOAT_001\<close> and takes all others.\<close>

definition reject_boat_001 :: sink where
  "reject_boat_001 produced_so_far message \<longleftrightarrow> map_of message ''boat'' \<noteq> Some ''BOAT_001''"

subsection \<open>Progress of a boat through the rounds\<close>

text \<open>
  \<open>remaining\<close> is the number of rows a boat has still to emit. \<open>after_rounds n b b'\<close>
  relates a boat to its state \<open>n\<close> visits later; \<open>visit_of r b v\<close> says that \<open>v\<close> records
  the visit of round \<open>r\<close> to the boat that was \<open>b\<close> when the worker started. \<open>handed\<close>
  lists the messages handed to the producer.
\<close>

definition remaining :: "boat \<Rightarrow> nat" where
  "remaining b = (if completed b then 0 else length (data_lines b) - current_index b)"

definition after_rounds :: "nat \<Rightarrow> boat \<Rightarrow> boat \<Rightarrow> bool" where
  "after_rounds n b b' \<longleftrightarrow>
     data_lines b' = data_lines b \<and> unique_boat_id b' = unique_boat_id b
     \<and> remaining b' = remaining b - n
     \<and> sent_count b' = sent_count b + min n (remaining b)"

definition handed :: "visit list \<Rightarrow> row list" where
  "handed vs = concat (map (\<lambda>v. case v_sent v of None \<Rightarrow> [] | Some m \<Rightarrow> [m]) vs)"

definition handed_log :: "visit list list \<Rightarrow> row list" where
  "handed_log vss = concat (map handed vss)"

definition visit_of :: "nat \<Rightarrow> boat \<Rightarrow> visit \<Rightarrow> bool" where
  "visit_of r b v \<longleftrightarrow>
     (v_pending v \<longleftrightarrow> r < remaining b)
     \<and> (if v_pending v
         then \<exists>row. v_sent v = Some row \<and> map_of row ''boat'' = Some (unique_boat_id b)
         else v_slept v = 0 \<and> v_sent v = None)"

subsection \<open>Invariant of the claim phase\<close>

text \<open>
  While the workers claim, the queue is what is left of the initial queue after the boats
  claimed so far, the claimed boats are the first boats of the initial queue, no worker
  holds more than its capacity, and a worker that has left the loop holds its full
  capacity unless the queue is empty.
\<close>

definition claim_ok :: "int \<Rightarrow> boat list \<Rightarrow> boat list \<times> bool \<Rightarrow> bool" where
  "claim_ok C queue w \<longleftrightarrow>
     length (fst w) \<le> nat C \<and> (snd w \<longrightarrow> length (fst w) = nat C \<or> queue = [])"

definition claim_inv :: "int \<Rightarrow> nat \<Rightarrow> boat list \<Rightarrow> claim_cfg \<Rightarrow> bool" where
  "claim_inv C W queue0 cfg \<longleftrightarrow>
     length (workers cfg) = W
     \<and> sum_list (map (length \<circ> fst) (workers cfg)) \<le> length queue0
     \<and> boat_queue cfg = drop (sum_list (map (length \<circ> fst) (workers cfg))) queue0
     \<and> sum_list (map (mset \<circ> fst) (workers cfg))
         = mset (take (sum_list (map (length \<circ> fst) (workers cfg))) queue0)
     \<and> list_all (claim_ok C (boat_queue cfg)) (workers cfg)"

text \<open>A queue of eight boats, used as an input below.\<close>

definition example_queue :: "boat list" where
  "example_queue = map (\<lambda>i. example_boat i 1) [1, 2, 3, 4, 5, 6, 7, 8]"

section \<open>Theorems\<close>

subsection \<open>Capacity\<close>

lemma round_to_double_small: "\<bar>n\<bar> < 2 ^ 53 \<Longrightarrow> round_to_double n = n"
  by (simp add: round_to_double_def Let_def bitlen_le_iff_power)

lemma round_to_double_big:
  assumes "2 ^ 53 \<le> n"
  shows "2 ^ nat (bitlen n - 1) \<le> round_to_double n"
    and "round_to_double n \<le> 2 ^ nat (bitlen n)"
proof -
  from assms have pos: "0 < n"
    by (smt (verit) zero_less_power)
  from assms have big: "\<not> bitlen n \<le> 53"
    by (simp add: bitlen_le_iff_power)
  define s where "s = nat (bitlen n - 53)"
  from big have len: "nat (bitlen n - 1) = 52 + s" "nat (bitlen n) = 53 + s"
    by (simp_all add: s_def)
  from bitlen_bounds [OF pos] len have lo: "2 ^ 52 * 2 ^ s \<le> n" and hi: "n < 2 ^ 53 * 2 ^ s"
    by (simp_all add: power_add)
  define q0 where "q0 = n div 2 ^ s"
  have q0lo: "2 ^ 52 \<le> q0"
    using zdiv_mono1 [OF lo, of "2 ^ s"] by (simp add: q0_def)
  have "0 \<le> n mod 2 ^ s" by simp
  with div_mult_mod_eq [of n "2 ^ s"] have "q0 * 2 ^ s \<le> n"
    unfolding q0_def by linarith
  from this hi have lt: "q0 * 2 ^ s < 2 ^ 53 * 2 ^ s" by (rule le_less_trans)
  have q0hi: "q0 < 2 ^ 53"
  proof (rule ccontr)
    assume "\<not> q0 < 2 ^ 53"
    then have "(2::int) ^ 53 \<le> q0" by simp
    then have "(2::int) ^ 53 * 2 ^ s \<le> q0 * 2 ^ s"
      by (intro mult_right_mono) simp_all
    with lt show False by linarith
  qed
  define q where "q = (if 2 * (n mod 2 ^ s) > 2 ^ s \<or> (2 * (n mod 2 ^ s) = 2 ^ s \<and> odd q0)
                       then q0 + 1 else q0)"
  from q0lo q0hi have q: "2 ^ 52 \<le> q" "q \<le> 2 ^ 53"
    by (simp_all add: q_def)
  from pos big have r: "round_to_double n = q * 2 ^ s"
    by (simp add: round_to_double_def Let_def s_def q_def q0_def)
  from q(1) have "(2::int) ^ 52 * 2 ^ s \<le> q * 2 ^ s"
    by (intro mult_right_mono) simp_all
  then show "2 ^ nat (bitlen n - 1) \<le> round_to_double n"
    by (simp add: r len power_add)
  from q(2) have "q * 2 ^ s \<le> (2::int) ^ 53 * 2 ^ s"
    by (intro mult_right_mono) simp_all
  then show "round_to_double n \<le> 2 ^ nat (bitlen n)"
    by (simp add: r len power_add)
qed


lemma round_to_double_ge:
  assumes "0 \<le> n"
  shows "min n (2 ^ 52) \<le> round_to_double n"
proof (cases "n < 2 ^ 53")
  case True
  with assms show ?thesis by (simp add: round_to_double_small)
next
  case False
  then have big: "2 ^ 53 \<le> n" by simp
  then have "\<not> bitlen n \<le> 53" by (simp add: bitlen_le_iff_power)
  then have "52 \<le> nat (bitlen n - 1)" by simp
  then have "(2::int) ^ 52 \<le> 2 ^ nat (bitlen n - 1)"
    by (rule power_increasing) simp
  with round_to_double_big(1) [OF big] show ?thesis by simp
qed

lemma round_to_double_le:
  assumes "0 \<le> n" and "n < 2 ^ k" and "53 \<le> k"
  shows "round_to_double n \<le> 2 ^ k"
proof (cases "n < 2 ^ 53")
  case True
  with assms show ?thesis by (simp add: round_to_double_small)
next
  case False
  then have big: "2 ^ 53 \<le> n" by simp
  from assms(2) have "bitlen n \<le> int k" by (simp add: bitlen_le_iff_power)
  then have "nat (bitlen n) \<le> k" by simp
  then have "(2::int) ^ nat (bitlen n) \<le> 2 ^ k"
    by (rule power_increasing) simp
  with round_to_double_big(2) [OF big] show ?thesis by (rule order_trans)
qed

lemma round_to_double_huge:
  assumes "2 ^ 1024 \<le> n"
  shows "2 ^ 1024 \<le> round_to_double n"
proof -
  have "(2::int) ^ 53 \<le> 2 ^ 1024" by (rule power_increasing) simp_all
  from this assms have big: "2 ^ 53 \<le> n" by (rule order_trans)
  from assms have "\<not> n < 2 ^ 1024" by simp
  then have "\<not> bitlen n \<le> 1024" by (simp add: bitlen_le_iff_power del: power_numeral)
  then have "1024 \<le> nat (bitlen n - 1)" by simp
  then have "(2::int) ^ 1024 \<le> 2 ^ nat (bitlen n - 1)"
    by (rule power_increasing) simp
  from this round_to_double_big(1) [OF big] show ?thesis by (rule order_trans)
qed


lemma floor_three_halves: "\<lfloor>of_int b * (1.5::real)\<rfloor> = (3 * b) div 2"
proof -
  have "of_int b * (1.5::real) = of_int (3 * b) / of_int 2"
    by simp
  then show ?thesis
    by (simp only: floor_divide_of_int_eq)
qed

lemma float_of_int_ok:
  assumes "0 \<le> b" and "b < 2 ^ 1022"
  shows "float_of_int b = Inr (of_int (round_to_double b))"
    and "min b (2 ^ 52) \<le> round_to_double b" and "round_to_double b \<le> 2 ^ 1022"
proof -
  from round_to_double_ge [OF assms(1)] show lo: "min b (2 ^ 52) \<le> round_to_double b" .
  from round_to_double_le [OF assms, of ] show hi: "round_to_double b \<le> 2 ^ 1022" by simp
  from lo assms(1) have "0 \<le> round_to_double b" by (simp add: min_def split: if_splits)
  moreover from hi have "round_to_double b < 2 ^ 1024" by simp
  ultimately show "float_of_int b = Inr (of_int (round_to_double b))"
    by (simp add: float_of_int_def Let_def)
qed

lemma times_three_halves:
  assumes "0 \<le> x" and "x \<le> 2 ^ 1022"
  shows "py_int (float_mul (of_int x) 1.5) = Inr (round_to_double (3 * x) div 2)"
    and "min (3 * x) (2 ^ 52) \<le> round_to_double (3 * x)"
proof -
  have fl: "\<lfloor>2 * (real_of_int x * 1.5)\<rfloor> = 3 * x"
  proof -
    have "2 * (real_of_int x * 1.5) = of_int (3 * x)" by simp
    then show ?thesis by (simp only: floor_of_int)
  qed
  from assms have nn: "0 \<le> 3 * x" and lt: "3 * x < 2 ^ 1024" by simp_all
  from round_to_double_ge [OF nn] show lo: "min (3 * x) (2 ^ 52) \<le> round_to_double (3 * x)" .
  from round_to_double_le [OF nn lt] have hi: "round_to_double (3 * x) \<le> 2 ^ 1024" by simp
  from lo nn have t0: "0 \<le> round_to_double (3 * x)" by (simp add: min_def split: if_splits)
  from hi have t1: "\<not> 2 ^ 1025 \<le> \<bar>round_to_double (3 * x)\<bar>" using t0 by simp
  have "float_mul (of_int x) 1.5 = Finite (of_int (round_to_double (3 * x)) / 2)"
    unfolding float_mul_def fl Let_def using t1 by (simp only: if_False)
  moreover have "\<lfloor>real_of_int (round_to_double (3 * x)) / 2\<rfloor> = round_to_double (3 * x) div 2"
    using floor_divide_of_int_eq [of "round_to_double (3 * x)" 2, where ?'a = real] by simp
  ultimately show "py_int (float_mul (of_int x) 1.5) = Inr (round_to_double (3 * x) div 2)"
    using t0 by (simp add: py_int_def)
qed


lemma capacity_above_one:
  assumes "1 \<le> b" and "b < 2 ^ 1022"
  shows "(case float_of_int b of
            Inl e \<Rightarrow> Inl e
          | Inr x \<Rightarrow>
              (case py_int (float_mul x 1.5) of
                 Inl e \<Rightarrow> Inl e
               | Inr i \<Rightarrow> Inr (max (min (max 1 i) 50) 1)))
         = Inr (max 1 (min 50 ((3 * b) div 2)))"
proof -
  let ?x = "round_to_double b"
  let ?t = "round_to_double (3 * ?x)"
  from assms have b0: "0 \<le> b" by simp
  note f = float_of_int_ok [OF b0 assms(2)]
  from f(2) assms(1) have x0: "0 \<le> ?x" by (simp add: min_def split: if_splits)
  note m = times_three_halves [OF x0 f(3)]
  have res: "(case float_of_int b of
            Inl e \<Rightarrow> Inl e
          | Inr x \<Rightarrow>
              (case py_int (float_mul x 1.5) of
                 Inl e \<Rightarrow> Inl e
               | Inr i \<Rightarrow> Inr (max (min (max 1 i) 50) 1)))
         = Inr (max (min (max 1 (?t div 2)) 50) 1)"
    by (simp only: f(1) m(1) sum.case)
  show ?thesis
  proof (cases "b < 2 ^ 51")
    case True
    with b0 have x: "?x = b" by (simp add: round_to_double_small)
    from True b0 have "\<bar>3 * b\<bar> < 2 ^ 53" by simp
    then have "round_to_double (3 * b) = 3 * b" by (rule round_to_double_small)
    with res x show ?thesis by (simp add: max_def min_def)
  next
    case False
    then have big: "2 ^ 51 \<le> b" by simp
    with f(2) have "2 ^ 51 \<le> ?x" by (simp add: min_def split: if_splits)
    with m(2) have "2 ^ 52 \<le> ?t" by (simp add: min_def split: if_splits)
    then have "50 \<le> ?t div 2" by simp
    moreover from big have "50 \<le> (3 * b) div 2" by simp
    ultimately show ?thesis using res by (simp add: max_def min_def)
  qed
qed

text \<open>
  C1 (amended): for \<open>N \<ge> 1\<close>, \<open>W \<ge> 1\<close> and a quotient \<open>N div W\<close> below \<open>2^1022\<close>
  the capacity is \<open>clamp(floor(floor(N/W) * bufferFactor), 1, 50)\<close>: both roundings go
  down. (\<open>capacity_overflow\<close> below: from \<open>2^1024\<close> on the code raises
  \<^verbatim>\<open>OverflowError\<close>.)
\<close>

theorem C1_capacity_floor:
  assumes "1 \<le> N" and "1 \<le> W" and "N div W < 2 ^ 1022"
  shows "calculate_boats_per_thread N W
           = Inr (clamp \<lfloor>of_int (N div W) * buffer_factor N W\<rfloor> 1 50)"
proof (cases "N > W")
  case True
  with assms have b: "1 \<le> N div W"
    using zdiv_mono1 [of W N W] by simp
  have bf: "buffer_factor N W = 1.5"
    using True by (simp add: buffer_factor_def)
  from b have mx: "max 1 (N div W) = N div W" by simp
  from assms(2) have w: "W \<noteq> 0" by simp
  have "calculate_boats_per_thread N W = Inr (max 1 (min 50 ((3 * (N div W)) div 2)))"
    unfolding calculate_boats_per_thread_def Let_def bf mx
    using capacity_above_one [OF b assms(3)] w by (simp only: if_False)
  moreover have "clamp \<lfloor>of_int (N div W) * buffer_factor N W\<rfloor> 1 50
      = max 1 (min 50 ((3 * (N div W)) div 2))"
    unfolding bf clamp_def by (simp only: floor_three_halves)
  ultimately show ?thesis by simp
next
  case False
  with assms have b: "N div W \<le> 1"
    using zdiv_mono1 [of N W W] by simp
  from assms have b0: "0 \<le> N div W"
    by (simp add: pos_imp_zdiv_nonneg_iff)
  have one: "round_to_double 1 = 1" "round_to_double 2 = 2"
    by (simp_all add: round_to_double_small)
  from False assms b b0 show ?thesis
    by (simp add: calculate_boats_per_thread_def clamp_def buffer_factor_def py_int_def
        float_of_int_def float_mul_def one Let_def max_def min_def)
qed

theorem C1_capacity_floor_witness:
  "(1::int) \<le> 10000 \<and> (1::int) \<le> 20 \<and> (10000::int) div 20 < 2 ^ 1022
   \<and> calculate_boats_per_thread 10000 20 = Inr 50
   \<and> clamp \<lfloor>of_int (10000 div 20) * buffer_factor 10000 20\<rfloor> 1 50 = 50"
proof -
  have "(10000::int) div 20 < 2 ^ 1022" by simp
  from C1_capacity_floor [of 10000 20, OF _ _ this] show ?thesis
    by (simp add: clamp_def buffer_factor_def floor_three_halves)
qed

lemma capacity_overflow:
  assumes "1 \<le> W" and "2 ^ 1024 \<le> N div W"
  shows "calculate_boats_per_thread N W = Inl OverflowError"
proof -
  have "(1::int) \<le> 2 ^ 1024" by simp
  from this assms(2) have "1 \<le> N div W" by (rule order_trans)
  then have mx: "max 1 (N div W) = N div W" by simp
  from round_to_double_huge [OF assms(2)]
  have "2 ^ 1024 \<le> \<bar>round_to_double (N div W)\<bar>" by simp
  then have "float_of_int (N div W) = Inl OverflowError"
    by (simp only: float_of_int_def Let_def if_True)
  with assms(1) show ?thesis
    by (simp add: calculate_boats_per_thread_def mx Let_def)
qed

text \<open>
  C1 (as stated): the capacity is \<open>clamp(ceil(N/W * bufferFactor), 1, 50)\<close>. With three
  boats and two workers the code yields 1 (floor division, then truncation), the formula 3.
\<close>

theorem C1_counterexample:
  "calculate_boats_per_thread 3 2 = Inr 1 \<and> spec_capacity 3 2 = 3"
proof -
  have "round_to_double 1 = 1" "round_to_double 3 = 3"
    by (simp_all add: round_to_double_small)
  then have "calculate_boats_per_thread 3 2 = Inr 1"
    by (simp add: calculate_boats_per_thread_def buffer_factor_def py_int_def
        float_of_int_def float_mul_def Let_def)
  moreover have "spec_capacity 3 2 = 3"
    by (simp add: spec_capacity_def clamp_def buffer_factor_def)
  ultimately show ?thesis by simp
qed

subsection \<open>Loading the rows\<close>

lemma read_rows_eq: "read_rows i n xs acc = acc @ take (nat (n - i)) xs"
proof (induction xs arbitrary: i acc)
  case Nil
  then show ?case by simp
next
  case (Cons r xs)
  show ?case
  proof (cases "i \<ge> n")
    case True
    then show ?thesis by simp
  next
    case False
    then have "nat (n - i) = Suc (nat (n - (i + 1)))" by simp
    with False Cons.IH show ?thesis by simp
  qed
qed

lemma skip_rows_eq: "skip_rows n xs = drop n xs"
  by (induction n arbitrary: xs) (auto split: list.splits simp: drop_Suc)

lemma load_data_eq:
  "load_data files path s e =
     (case files path of None \<Rightarrow> Inl FileNotFoundError
      | Some rows \<Rightarrow> Inr (take (nat (e - s)) (drop (nat s) rows)))"
  by (simp add: load_data_def read_rows_eq skip_rows_eq split: option.splits)

lemma constructed_fields:
  assumes "BoatSimulationState files bid path s e topic = Inr b"
  shows "\<exists>rows. files path = Some rows \<and> data_lines b = take (nat (e - s)) (drop (nat s) rows)
           \<and> current_index b = 0 \<and> sent_count b = 0 \<and> \<not> completed b
           \<and> start_row b = s \<and> end_row b = e"
  using assms
  by (auto simp: BoatSimulationState_def load_data_eq split: option.splits)

text \<open>
  C10 (amended): when the file holds fewer rows than the window \<open>[start_row, end_row)\<close>
  asks for, and \<open>0 \<le> start_row \<le> end_row\<close>, the constructor succeeds and loads the rows
  from \<open>start_row\<close> to the end of the file:
  \<open>min(end_row - start_row, max(0, rows_in_file - start_row))\<close> of them.
\<close>

theorem C10_short_file:
  assumes "files path = Some rows" and "0 \<le> s" and "s \<le> e" and "int (length rows) < e"
  shows "\<exists>b. BoatSimulationState files bid path s e topic = Inr b
           \<and> data_lines b = drop (nat s) rows
           \<and> int (length (data_lines b)) = min (e - s) (max 0 (int (length rows) - s))"
  using assms
  by (auto simp: BoatSimulationState_def load_data_eq min_def max_def)

theorem C10_short_file_witness:
  "example_files ''orderedData/ITA.csv'' = Some [example_row, example_row]
   \<and> (0::int) \<le> 1 \<and> (1::int) \<le> 5 \<and> int (length [example_row, example_row]) < 5
   \<and> (case BoatSimulationState example_files 7 ''orderedData/ITA.csv'' 1 5 ''boat_data'' of
        Inl e \<Rightarrow> False | Inr b \<Rightarrow> data_lines b = [example_row] \<and> length (data_lines b) = 1)"
proof -
  have f: "example_files ''orderedData/ITA.csv'' = Some [example_row, example_row]"
    by (simp add: example_files_def)
  from C10_short_file [of example_files "''orderedData/ITA.csv''" "[example_row, example_row]"
      1 5 7 "''boat_data''"] f
  show ?thesis
    by auto
qed

text \<open>
  C10 (as stated): every entity on a short file loads
  \<open>min(end_row - start_row, max(0, rows_in_file - start_row))\<close> rows. With the window
  \<open>[-1, 5)\<close> on a file of two rows nothing is skipped and both rows are loaded; the
  formula gives 3.
\<close>

theorem C10_counterexample:
  "BoatSimulationState example_files 1 ''orderedData/ITA.csv'' (- 1) 5 ''boat_data''
     = Inr negative_start_boat
   \<and> int (length [example_row, example_row]) < 5
   \<and> length (data_lines negative_start_boat) = 2
   \<and> min (5 - (- 1)) (max 0 (int (length [example_row, example_row]) - (- 1))) = (3::int)"
  by (simp add: BoatSimulationState_def load_data_eq example_files_def negative_start_boat_def
      format_03d_def last_component_def numeral_2_eq_2)

subsection \<open>The entity state machine\<close>

text \<open>
  C7: when \<^verbatim>\<open>has_next_message\<close> is false, \<^verbatim>\<open>get_next_message\<close> returns \<^verbatim>\<open>None\<close> and the
  whole state of the entity (cursor, emitted count, last emission, completion flag and
  every other field) is as before.
\<close>

theorem C7_take_next_idle:
  assumes "\<not> has_next_message b"
  shows "get_next_message b stamp now = (None, b)"
  using assms by (simp add: get_next_message_def)

theorem C7_take_next_idle_witness:
  "\<not> has_next_message (example_boat 1 0)
   \<and> get_next_message (example_boat 1 0) ''2026-01-01T00:00:00.000Z'' 100
       = (None, example_boat 1 0)"
proof -
  have h: "\<not> has_next_message (example_boat 1 0)"
    by (simp add: has_next_message_def example_boat_def)
  from C7_take_next_idle [OF h] h show ?thesis by simp
qed

lemma entity_inv_constructed:
  "BoatSimulationState files bid path s e topic = Inr b \<Longrightarrow> entity_inv b"
  by (auto simp: entity_inv_def dest!: constructed_fields)

lemma entity_inv_op: "entity_inv b \<Longrightarrow> entity_inv (apply_entity_op b x)"
  by (cases x) (auto simp: entity_inv_def get_next_message_def has_next_message_def Let_def)

lemma data_lines_op: "data_lines (apply_entity_op b x) = data_lines b"
  by (cases x) (auto simp: get_next_message_def Let_def)

lemma entity_inv_ops: "entity_inv b \<Longrightarrow> entity_inv (run_entity_ops b ops)"
  unfolding run_entity_ops_def
  by (induction ops arbitrary: b) (simp_all add: entity_inv_op)

lemma data_lines_ops: "data_lines (run_entity_ops b ops) = data_lines b"
  unfolding run_entity_ops_def
  by (induction ops arbitrary: b) (simp_all add: data_lines_op)

lemma constructed_example_boat:
  "BoatSimulationState example_files 1 ''orderedData/ITA.csv'' 0 2 ''boat_data''
     = Inr (example_boat 1 2)"
  by (simp add: BoatSimulationState_def load_data_eq example_files_def example_boat_def
      format_03d_def last_component_def numeral_2_eq_2)

lemma get_next_message_pending:
  assumes "has_next_message b"
  shows "get_next_message b stamp now =
           (Some (AList.update ''boat'' (unique_boat_id b)
                    (AList.update ''timestamp'' stamp
                       (AList.update ''time'' stamp (data_lines b ! current_index b)))),
            b\<lparr>current_index := current_index b + 1,
               sent_count := sent_count b + 1,
               last_send_time := now,
               completed := (current_index b + 1 = length (data_lines b))\<rparr>)"
  using assms
  by (auto simp: get_next_message_def has_next_message_def Let_def)

lemma window_op:
  "start_row (apply_entity_op b x) = start_row b \<and> end_row (apply_entity_op b x) = end_row b"
  by (cases x) (auto simp: get_next_message_def Let_def)

lemma window_ops:
  "start_row (run_entity_ops b ops) = start_row b \<and> end_row (run_entity_ops b ops) = end_row b"
  unfolding run_entity_ops_def
  by (induction ops arbitrary: b) (simp_all add: window_op)

lemma constructed_window:
  assumes "BoatSimulationState files bid path s e topic = Inr b0"
  shows "length (data_lines (run_entity_ops b0 ops))
           \<le> nat (end_row (run_entity_ops b0 ops) - start_row (run_entity_ops b0 ops))"
  using constructed_fields [OF assms]
  by (auto simp: data_lines_ops window_ops)

text \<open>
  C6: for a boat built by the constructor, after any calls of the three operations, with
  \<^verbatim>\<open>has_next_message\<close> true: \<^verbatim>\<open>get_next_message\<close> returns a row whose fields \<open>boat\<close>,
  \<open>time\<close> and \<open>timestamp\<close> are the unique id and (twice) the stamp, and whose other
  fields are those of the current row; the cursor and the emitted count go up by one, the
  last send time is \<open>now\<close>, and nothing else changes (the loaded rows included). The
  flag is set exactly when the cursor has reached the number of loaded rows; so it is set
  when the cursor reaches the window length \<open>end_row - start_row\<close>.
\<close>

theorem C6_take_next:
  assumes "BoatSimulationState files bid path s e topic = Inr b0"
    and "b = run_entity_ops b0 ops"
    and "has_next_message b"
  shows "\<exists>row. get_next_message b stamp now =
                 (Some row, b\<lparr>current_index := current_index b + 1,
                               sent_count := sent_count b + 1,
                               last_send_time := now,
                               completed := (current_index b + 1 = length (data_lines b))\<rparr>)
           \<and> map_of row ''boat'' = Some (unique_boat_id b)
           \<and> map_of row ''time'' = Some stamp
           \<and> map_of row ''timestamp'' = Some stamp
           \<and> (\<forall>k. k \<notin> {''boat'', ''time'', ''timestamp''}
                 \<longrightarrow> map_of row k = map_of (data_lines b ! current_index b) k)
           \<and> (int (current_index b + 1) = end_row b - start_row b
                 \<longrightarrow> completed (snd (get_next_message b stamp now)))"
proof -
  from assms(3) have lt: "current_index b < length (data_lines b)"
    by (simp add: has_next_message_def)
  from constructed_window [OF assms(1), of ops] assms(2)
  have le: "length (data_lines b) \<le> nat (end_row b - start_row b)" by simp
  have win: "current_index b + 1 = length (data_lines b)"
    if "int (current_index b + 1) = end_row b - start_row b"
    using that lt le by linarith
  note g = get_next_message_pending [OF assms(3), of stamp now]
  show ?thesis
    unfolding g using win
    by (auto simp: update_conv')
qed

theorem C6_take_next_witness:
  "BoatSimulationState example_files 1 ''orderedData/ITA.csv'' 0 2 ''boat_data''
     = Inr (example_boat 1 2)
   \<and> has_next_message (run_entity_ops (example_boat 1 2) [TakeNext ''S'' 50])
   \<and> int (current_index (run_entity_ops (example_boat 1 2) [TakeNext ''S'' 50]) + 1)
       = end_row (run_entity_ops (example_boat 1 2) [TakeNext ''S'' 50])
         - start_row (run_entity_ops (example_boat 1 2) [TakeNext ''S'' 50])
   \<and> fst (get_next_message (run_entity_ops (example_boat 1 2) [TakeNext ''S'' 50]) ''T'' 100)
       = Some [(''boat'', ''BOAT_001''), (''time'', ''T''), (''speed'', ''12''),
               (''timestamp'', ''T'')]
   \<and> completed (snd (get_next_message
         (run_entity_ops (example_boat 1 2) [TakeNext ''S'' 50]) ''T'' 100))"
proof -
  let ?b = "run_entity_ops (example_boat 1 2) [TakeNext ''S'' 50]"
  have h: "has_next_message ?b" by code_simp
  have w: "int (current_index ?b + 1) = end_row ?b - start_row ?b" by code_simp
  have r: "fst (get_next_message ?b ''T'' 100)
      = Some [(''boat'', ''BOAT_001''), (''time'', ''T''), (''speed'', ''12''),
              (''timestamp'', ''T'')]"
    by code_simp
  from C6_take_next [OF constructed_example_boat refl h, of "''T''" 100] w
  have "completed (snd (get_next_message ?b ''T'' 100))" by blast
  with constructed_example_boat h w r show ?thesis by blast
qed

text \<open>
  C3 (as stated): the flag is true iff the cursor equals the number of loaded rows, the
  empty row sequence included. A boat whose window lies past the end of its file is built
  with no rows: its cursor equals that length, 0, and its flag is false, and stays false
  whatever is called.
\<close>

theorem C3_counterexample:
  "BoatSimulationState example_files 1 ''orderedData/ITA.csv'' 5 9 ''boat_data''
     = Inr empty_window_boat
   \<and> current_index (run_entity_ops empty_window_boat [HasPending, CanEmit 100, TakeNext ''T'' 100])
       = length (data_lines
           (run_entity_ops empty_window_boat [HasPending, CanEmit 100, TakeNext ''T'' 100]))
   \<and> \<not> completed (run_entity_ops empty_window_boat [HasPending, CanEmit 100, TakeNext ''T'' 100])"
  by (simp add: BoatSimulationState_def load_data_eq example_files_def empty_window_boat_def
      format_03d_def last_component_def run_entity_ops_def get_next_message_def
      has_next_message_def numeral_2_eq_2)

text \<open>
  C3 (amended): for a boat built by the constructor with at least one loaded row, after
  every sequence of calls of the three operations the flag is true iff the cursor equals
  the number of loaded rows.
\<close>

theorem C3_completed_iff_nonempty:
  assumes "BoatSimulationState files bid path s e topic = Inr b"
    and "data_lines b \<noteq> []"
  shows "completed (run_entity_ops b ops)
           \<longleftrightarrow> current_index (run_entity_ops b ops) = length (data_lines (run_entity_ops b ops))"
proof -
  have "entity_inv (run_entity_ops b ops)"
    using assms(1) by (intro entity_inv_ops entity_inv_constructed)
  with assms(2) show ?thesis
    by (simp add: entity_inv_def data_lines_ops)
qed

theorem C3_completed_iff_nonempty_witness:
  "BoatSimulationState example_files 1 ''orderedData/ITA.csv'' 0 2 ''boat_data''
     = Inr (example_boat 1 2)
   \<and> data_lines (example_boat 1 2) \<noteq> []
   \<and> completed (run_entity_ops (example_boat 1 2)
                  [TakeNext ''T'' 100, HasPending, CanEmit 120, TakeNext ''U'' 150])
   \<and> current_index (run_entity_ops (example_boat 1 2)
                  [TakeNext ''T'' 100, HasPending, CanEmit 120, TakeNext ''U'' 150]) = 2"
proof -
  let ?ops = "[TakeNext ''T'' 100, HasPending, CanEmit 120, TakeNext ''U'' 150]"
  have n: "data_lines (example_boat 1 2) \<noteq> []"
    by (simp add: example_boat_def)
  have c: "current_index (run_entity_ops (example_boat 1 2) ?ops) = 2"
    by (simp add: run_entity_ops_def get_next_message_def has_next_message_def
        example_boat_def Let_def)
  have l: "length (data_lines (run_entity_ops (example_boat 1 2) ?ops)) = 2"
    by (simp add: data_lines_ops example_boat_def)
  from C3_completed_iff_nonempty [OF constructed_example_boat n, of ?ops] c l
  have "completed (run_entity_ops (example_boat 1 2) ?ops)" by simp
  with constructed_example_boat n c show ?thesis by simp
qed

subsection \<open>The round loop\<close>

lemma spin_wait_eq:
  "spin_wait b clk n = (max clk (last_send_time b + 50), n + nat (last_send_time b + 50 - clk))"
proof (induction b clk n rule: spin_wait.induct)
  case (1 b clk slept)
  show ?case
  proof (cases "can_send_now b clk")
    case True
    then show ?thesis
      by (subst spin_wait.simps) (simp add: can_send_now_def)
  next
    case False
    with "1" show ?thesis
      by (subst spin_wait.simps) (simp add: can_send_now_def nat_diff_distrib max_def)
  qed
qed

lemma has_next_remaining: "has_next_message b \<longleftrightarrow> 0 < remaining b"
  by (auto simp: has_next_message_def remaining_def)

lemma visit_boat_idle:
  "\<not> has_next_message b \<Longrightarrow>
     visit_boat a f b ws = (b, ws, \<lparr>v_pending = False, v_slept = 0, v_sent = None\<rparr>, None)"
  by (simp add: visit_boat_def)


lemma visit_boat_pending:
  assumes "has_next_message b"
  shows "\<exists>row clk n b'.
           row \<noteq> [] \<and> map_of row ''boat'' = Some (unique_boat_id b)
           \<and> after_rounds 1 b b'
           \<and> visit_boat a f b ws =
               (b',
                if a (produced ws) row
                then ws\<lparr>clock := clk, produced := produced ws @ [row],
                        total_messages_sent := total_messages_sent ws + 1\<rparr>
                else ws\<lparr>clock := clk\<rparr>,
                \<lparr>v_pending = True, v_slept = n, v_sent = Some row\<rparr>,
                if a (produced ws) row then None else Some PublishError)"
proof -
  obtain clk n where sw: "spin_wait b (clock ws) 0 = (clk, n)"
    by (cases "spin_wait b (clock ws) 0")
  define row where "row = AList.update ''boat'' (unique_boat_id b)
                    (AList.update ''timestamp'' (f clk)
                       (AList.update ''time'' (f clk) (data_lines b ! current_index b)))"
  define b' where "b' = b\<lparr>current_index := current_index b + 1,
               sent_count := sent_count b + 1,
               last_send_time := clk,
               completed := (current_index b + 1 = length (data_lines b))\<rparr>"
  have g: "get_next_message b (f clk) clk = (Some row, b')"
    unfolding row_def b'_def by (rule get_next_message_pending [OF assms])
  have ne: "row \<noteq> []" by (simp add: row_def)
  have bt: "map_of row ''boat'' = Some (unique_boat_id b)"
    by (simp add: row_def update_conv')
  from assms have ar: "after_rounds 1 b b'"
    by (auto simp: b'_def after_rounds_def remaining_def has_next_message_def)
  have "visit_boat a f b ws =
               (b',
                if a (produced ws) row
                then ws\<lparr>clock := clk, produced := produced ws @ [row],
                        total_messages_sent := total_messages_sent ws + 1\<rparr>
                else ws\<lparr>clock := clk\<rparr>,
                \<lparr>v_pending = True, v_slept = n, v_sent = Some row\<rparr>,
                if a (produced ws) row then None else Some PublishError)"
    using assms sw g ne by (simp add: visit_boat_def Let_def)
  with ne bt ar show ?thesis by blast
qed

lemma visit_boat_facts:
  assumes "visit_boat a f b ws = (b', ws', v, ex)"
  shows "after_rounds 1 b b'"
    and "visit_of 0 b v"
    and "ex = None \<Longrightarrow>
           total_messages_sent ws' + sent_count b = total_messages_sent ws + sent_count b'"
    and "ex = None \<Longrightarrow> produced ws' = produced ws @ handed [v]"
    and "ex \<noteq> None \<Longrightarrow> ex = Some PublishError \<and> produced ws' = produced ws
           \<and> (\<exists>m. v_sent v = Some m \<and> \<not> a (produced ws) m)"
proof -
  show "after_rounds 1 b b'"
  proof (cases "has_next_message b")
    case True
    from visit_boat_pending [OF True, of a f ws] assms show ?thesis by auto
  next
    case False
    with assms visit_boat_idle [OF False, of a f ws] show ?thesis
      by (auto simp: after_rounds_def has_next_remaining)
  qed
  show "visit_of 0 b v"
  proof (cases "has_next_message b")
    case True
    from visit_boat_pending [OF True, of a f ws] assms True show ?thesis
      by (auto simp: visit_of_def has_next_remaining)
  next
    case False
    with assms visit_boat_idle [OF False, of a f ws] show ?thesis
      by (auto simp: visit_of_def has_next_remaining)
  qed
  show "total_messages_sent ws' + sent_count b = total_messages_sent ws + sent_count b'"
    if "ex = None"
  proof (cases "has_next_message b")
    case True
    from visit_boat_pending [OF True, of a f ws] assms True that show ?thesis
      by (auto simp: after_rounds_def has_next_remaining split: if_splits)
  next
    case False
    with assms visit_boat_idle [OF False, of a f ws] show ?thesis
      by auto
  qed
  show "produced ws' = produced ws @ handed [v]" if "ex = None"
  proof (cases "has_next_message b")
    case True
    from visit_boat_pending [OF True, of a f ws] assms True that show ?thesis
      by (auto simp: handed_def split: if_splits)
  next
    case False
    with assms visit_boat_idle [OF False, of a f ws] show ?thesis
      by (auto simp: handed_def)
  qed
  show "ex = Some PublishError \<and> produced ws' = produced ws
           \<and> (\<exists>m. v_sent v = Some m \<and> \<not> a (produced ws) m)" if "ex \<noteq> None"
  proof (cases "has_next_message b")
    case True
    from visit_boat_pending [OF True, of a f ws] assms True that show ?thesis
      by (auto split: if_splits)
  next
    case False
    with assms visit_boat_idle [OF False, of a f ws] that show ?thesis
      by auto
  qed
qed


lemma handed_Cons: "handed (v # vs) = handed [v] @ handed vs"
  by (simp add: handed_def)

lemma inner_loop_ok:
  assumes "inner_loop a f bs ws = (bs', ws', vs, None)"
  shows "list_all2 (after_rounds 1) bs bs' \<and> list_all2 (visit_of 0) bs vs
         \<and> total_messages_sent ws' + sum_list (map sent_count bs)
             = total_messages_sent ws + sum_list (map sent_count bs')
         \<and> produced ws' = produced ws @ handed vs"
  using assms
proof (induction bs arbitrary: ws bs' ws' vs)
  case Nil
  then show ?case by (simp add: handed_def)
next
  case (Cons b bs)
  obtain b1 ws1 v ex where vb: "visit_boat a f b ws = (b1, ws1, v, ex)"
    by (cases "visit_boat a f b ws") auto
  with Cons.prems have ex: "ex = None"
    by (cases ex) (auto split: prod.splits)
  obtain bs2 ws2 vs2 ex2 where il: "inner_loop a f bs ws1 = (bs2, ws2, vs2, ex2)"
    by (cases "inner_loop a f bs ws1") auto
  from Cons.prems vb ex il have eqs: "bs' = b1 # bs2" "ws' = ws2" "vs = v # vs2" "ex2 = None"
    by auto
  note ih = Cons.IH [OF il [unfolded eqs(4)]]
  note vf = visit_boat_facts [OF vb]
  from vf(3) [OF ex] ih
  have tot: "total_messages_sent ws2 + sum_list (map sent_count (b # bs))
             = total_messages_sent ws + sum_list (map sent_count (b1 # bs2))"
    by simp
  from vf(4) [OF ex] ih have pr: "produced ws2 = produced ws @ handed (v # vs2)"
    by (simp add: handed_Cons [of v vs2])
  from vf(1,2) ih tot pr show ?case
    unfolding eqs by simp
qed

lemma inner_loop_raised:
  assumes "inner_loop a f bs ws = (bs', ws', vs, Some e)"
  shows "e = PublishError \<and> vs \<noteq> []
         \<and> (\<exists>m. v_sent (last vs) = Some m \<and> \<not> a (produced ws') m
                \<and> produced ws @ handed vs = produced ws' @ [m])"
  using assms
proof (induction bs arbitrary: ws bs' ws' vs)
  case Nil
  then show ?case by simp
next
  case (Cons b bs)
  obtain b1 ws1 v ex where vb: "visit_boat a f b ws = (b1, ws1, v, ex)"
    by (cases "visit_boat a f b ws") auto
  note vf = visit_boat_facts [OF vb]
  show ?case
  proof (cases ex)
    case (Some e')
    with Cons.prems vb have eqs: "ws' = ws1" "vs = [v]" "e = e'"
      by auto
    from vf(5) Some show ?thesis
      unfolding eqs by (auto simp: handed_def)
  next
    case None
    obtain bs2 ws2 vs2 ex2 where il: "inner_loop a f bs ws1 = (bs2, ws2, vs2, ex2)"
      by (cases "inner_loop a f bs ws1") auto
    from Cons.prems vb None il have eqs: "ws' = ws2" "vs = v # vs2" "ex2 = Some e"
      by auto
    note ih = Cons.IH [OF il [unfolded eqs(3)]]
    from vf(4) [OF None] ih show ?thesis
      unfolding eqs by (auto simp: handed_Cons [of v vs2])
  qed
qed

lemma after_rounds_Suc:
  "after_rounds 1 b b1 \<Longrightarrow> after_rounds n b1 b2 \<Longrightarrow> after_rounds (Suc n) b b2"
  by (auto simp: after_rounds_def min_def)

lemma visit_of_Suc: "after_rounds 1 b b1 \<Longrightarrow> visit_of r b1 v \<Longrightarrow> visit_of (Suc r) b v"
  by (auto simp: after_rounds_def visit_of_def)

lemma after_rounds_Suc_list:
  assumes "list_all2 (after_rounds (Suc 0)) bs bs1" and "list_all2 (after_rounds n) bs1 bs2"
  shows "list_all2 (after_rounds (Suc n)) bs bs2"
  using list_all2_trans [of "after_rounds 1" "after_rounds n" "after_rounds (Suc n)" bs bs1 bs2]
    after_rounds_Suc assms
  by auto

lemma visit_of_Suc_list:
  assumes "list_all2 (after_rounds (Suc 0)) bs bs1" and "list_all2 (visit_of r) bs1 vs"
  shows "list_all2 (visit_of (Suc r)) bs vs"
  using list_all2_trans [of "after_rounds 1" "visit_of r" "visit_of (Suc r)" bs bs1 vs]
    visit_of_Suc assms
  by auto

lemma after_rounds_0: "list_all2 (after_rounds 0) bs bs"
  by (simp add: list_all2_refl after_rounds_def)

lemma round_loop_ok:
  assumes "round_loop a f rs bs ws = (bs', ws', vss, None)"
  shows "list_all2 (after_rounds (length rs)) bs bs'
         \<and> length vss = length rs
         \<and> (\<forall>r < length rs. list_all2 (visit_of r) bs (vss ! r))
         \<and> total_messages_sent ws' + sum_list (map sent_count bs)
             = total_messages_sent ws + sum_list (map sent_count bs')
         \<and> produced ws' = produced ws @ handed_log vss"
  using assms
proof (induction rs arbitrary: bs ws bs' ws' vss)
  case Nil
  then show ?case by (simp add: after_rounds_0 handed_log_def)
next
  case (Cons r0 rs)
  obtain bs1 ws1 vs ex where il: "inner_loop a f bs ws = (bs1, ws1, vs, ex)"
    by (cases "inner_loop a f bs ws") auto
  with Cons.prems have ex: "ex = None"
    by (cases ex) (auto split: prod.splits)
  obtain bs2 ws2 vss2 ex2 where rl: "round_loop a f rs bs1 ws1 = (bs2, ws2, vss2, ex2)"
    by (cases "round_loop a f rs bs1 ws1") auto
  from Cons.prems il ex rl have eqs: "bs' = bs2" "ws' = ws2" "vss = vs # vss2" "ex2 = None"
    by auto
  note ih = Cons.IH [OF rl [unfolded eqs(4)]]
  note io = inner_loop_ok [OF il [unfolded ex]]
  from io ih have ar: "list_all2 (after_rounds (length (r0 # rs))) bs bs2"
    by (auto intro: after_rounds_Suc_list)
  have vis: "list_all2 (visit_of r) bs ((vs # vss2) ! r)" if "r < length (r0 # rs)" for r
  proof (cases r)
    case 0
    with io show ?thesis by simp
  next
    case (Suc r')
    with that ih have "list_all2 (visit_of r') bs1 (vss2 ! r')" by simp
    with io have "list_all2 (visit_of (Suc r')) bs (vss2 ! r')"
      by (auto intro: visit_of_Suc_list)
    with Suc show ?thesis by simp
  qed
  from io ih have tot: "total_messages_sent ws2 + sum_list (map sent_count bs)
             = total_messages_sent ws + sum_list (map sent_count bs2)"
    by simp
  from io ih have pr: "produced ws2 = produced ws @ handed_log (vs # vss2)"
    by (simp add: handed_log_def)
  from ar ih vis tot pr show ?case
    unfolding eqs by simp
qed

lemma round_loop_raised:
  assumes "round_loop a f rs bs ws = (bs', ws', vss, Some e)"
  shows "e = PublishError \<and> vss \<noteq> [] \<and> last vss \<noteq> []
         \<and> (\<exists>m. v_sent (last (last vss)) = Some m \<and> \<not> a (produced ws') m
                \<and> produced ws @ handed_log vss = produced ws' @ [m])"
  using assms
proof (induction rs arbitrary: bs ws bs' ws' vss)
  case Nil
  then show ?case by simp
next
  case (Cons r0 rs)
  obtain bs1 ws1 vs ex where il: "inner_loop a f bs ws = (bs1, ws1, vs, ex)"
    by (cases "inner_loop a f bs ws") auto
  show ?case
  proof (cases ex)
    case (Some e')
    with Cons.prems il have eqs: "ws' = ws1" "vss = [vs]" "e = e'"
      by auto
    from inner_loop_raised [OF il [unfolded Some]] show ?thesis
      unfolding eqs by (auto simp: handed_log_def)
  next
    case None
    obtain bs2 ws2 vss2 ex2 where rl: "round_loop a f rs bs1 ws1 = (bs2, ws2, vss2, ex2)"
      by (cases "round_loop a f rs bs1 ws1") auto
    from Cons.prems il None rl have eqs: "ws' = ws2" "vss = vs # vss2" "ex2 = Some e"
      by auto
    note ih = Cons.IH [OF rl [unfolded eqs(3)]]
    from inner_loop_ok [OF il [unfolded None]] ih show ?thesis
      unfolding eqs by (auto simp: handed_log_def)
  qed
qed


lemma fold_max_eq: "fold (\<lambda>b m. max m (g b)) bs (m0::nat) = Max (insert m0 (g ` set bs))"
proof (induction bs arbitrary: m0)
  case Nil
  then show ?case by simp
next
  case (Cons b bs)
  have "Max (insert (max m0 (g b)) (g ` set bs)) = Max (insert m0 (insert (g b) (g ` set bs)))"
    by (cases "g ` set bs = {}") (simp_all add: max.assoc)
  with Cons show ?case by simp
qed

lemma max_rounds_Max:
  assumes "bs \<noteq> []"
  shows "max_rounds bs = Max ((\<lambda>b. length (data_lines b)) ` set bs)"
proof -
  from assms have "(\<lambda>b. length (data_lines b)) ` set bs \<noteq> {}" by simp
  then show ?thesis
    unfolding max_rounds_def fold_max_eq by simp
qed

lemma max_rounds_ge: "b \<in> set bs \<Longrightarrow> length (data_lines b) \<le> max_rounds bs"
  unfolding max_rounds_def fold_max_eq by simp

lemma worker_returns:
  assumes "ret (worker_thread_simulation a f B clock0) = Inr n" and "B \<noteq> []"
  shows "\<exists>ws. round_loop a f [0..<max_rounds B] B
                 \<lparr>clock = clock0, produced = [], total_messages_sent = 0\<rparr>
               = (final_boats (worker_thread_simulation a f B clock0), ws,
                  rounds_log (worker_thread_simulation a f B clock0), None)
              \<and> total_messages_sent ws = n"
  using assms
  by (auto simp: worker_thread_simulation_def Let_def split: prod.splits option.splits)


lemma worker_returns_if_accepted:
  assumes "\<And>p m. a p m"
  shows "\<exists>n. ret (worker_thread_simulation a f B clock0) = Inr n"
proof (cases "B = []")
  case True
  then show ?thesis by (simp add: worker_thread_simulation_def)
next
  case False
  let ?ws0 = "\<lparr>clock = clock0, produced = [], total_messages_sent = 0\<rparr>"
  obtain bs ws vss ex where
    rl: "round_loop a f [0..<max_rounds B] B ?ws0 = (bs, ws, vss, ex)"
    by (cases "round_loop a f [0..<max_rounds B] B ?ws0") auto
  show ?thesis
  proof (cases ex)
    case None
    with False rl show ?thesis by (simp add: worker_thread_simulation_def)
  next
    case (Some e)
    from round_loop_raised [OF rl [unfolded Some]] assms show ?thesis by blast
  qed
qed

text \<open>
  C5 (amended): a worker with a non-empty batch \<open>B\<close> that returns its count (no publish
  call raised) has run exactly \<open>max (len rows)\<close> rounds; in each round there is one visit
  per boat, in the order of \<open>B\<close>; the visit of round \<open>r\<close> to the \<open>k\<close>-th boat finds
  a message pending iff \<open>r\<close> is below the number of rows that boat had left, hands a
  message with that boat's id to the producer if so, and otherwise neither sleeps nor
  sends. (\<open>worker_returns_if_accepted\<close>: a worker whose sink takes every message
  returns its count.)
\<close>

theorem C5_round_scheduler:
  assumes "B \<noteq> []" and "ret (worker_thread_simulation a f B clock0) = Inr n"
  shows "length (rounds_log (worker_thread_simulation a f B clock0))
           = Max ((\<lambda>b. length (data_lines b)) ` set B)
         \<and> (\<forall>r < length (rounds_log (worker_thread_simulation a f B clock0)).
              length (rounds_log (worker_thread_simulation a f B clock0) ! r) = length B
              \<and> (\<forall>k < length B.
                    (v_pending (rounds_log (worker_thread_simulation a f B clock0) ! r ! k)
                       \<longleftrightarrow> r < remaining (B ! k))
                    \<and> (if r < remaining (B ! k)
                        then \<exists>row. v_sent (rounds_log (worker_thread_simulation a f B clock0) ! r ! k)
                                      = Some row
                                 \<and> map_of row ''boat'' = Some (unique_boat_id (B ! k))
                        else v_slept (rounds_log (worker_thread_simulation a f B clock0) ! r ! k) = 0
                           \<and> v_sent (rounds_log (worker_thread_simulation a f B clock0) ! r ! k)
                               = None)))"
proof -
  let ?out = "worker_thread_simulation a f B clock0"
  from worker_returns [OF assms(2,1)] obtain ws where
    rl: "round_loop a f [0..<max_rounds B] B
           \<lparr>clock = clock0, produced = [], total_messages_sent = 0\<rparr>
         = (final_boats ?out, ws, rounds_log ?out, None)"
    by blast
  note ok = round_loop_ok [OF rl]
  from ok have len: "length (rounds_log ?out) = max_rounds B" by simp
  have "list_all2 (visit_of r) B (rounds_log ?out ! r)" if "r < length (rounds_log ?out)" for r
    using ok that len by simp
  then have "\<forall>r < length (rounds_log ?out).
      length (rounds_log ?out ! r) = length B
      \<and> (\<forall>k < length B. visit_of r (B ! k) (rounds_log ?out ! r ! k))"
    by (simp add: list_all2_conv_all_nth)
  then show ?thesis
    using len max_rounds_Max [OF assms(1)]
    by (simp add: visit_of_def)
qed

theorem C5_round_scheduler_witness:
  "[example_boat 1 2, example_boat 2 1] \<noteq> []
   \<and> ret (worker_thread_simulation (\<lambda>p m. True) (\<lambda>t. ''T'')
            [example_boat 1 2, example_boat 2 1] 1000) = Inr 3
   \<and> length (rounds_log (worker_thread_simulation (\<lambda>p m. True) (\<lambda>t. ''T'')
            [example_boat 1 2, example_boat 2 1] 1000)) = 2
   \<and> v_slept (rounds_log (worker_thread_simulation (\<lambda>p m. True) (\<lambda>t. ''T'')
            [example_boat 1 2, example_boat 2 1] 1000) ! 1 ! 1) = 0
   \<and> v_sent (rounds_log (worker_thread_simulation (\<lambda>p m. True) (\<lambda>t. ''T'')
            [example_boat 1 2, example_boat 2 1] 1000) ! 1 ! 1) = None"
proof -
  let ?B = "[example_boat 1 2, example_boat 2 1]"
  let ?out = "worker_thread_simulation (\<lambda>p m. True) (\<lambda>t. ''T'') ?B 1000"
  have ne: "?B \<noteq> []" by simp
  have r: "ret ?out = Inr 3" by code_simp
  have m: "Max ((\<lambda>b. length (data_lines b)) ` set ?B) = 2"
    by (simp add: example_boat_def)
  have rem: "remaining (?B ! 1) = 1"
    by (simp add: remaining_def example_boat_def)
  note th = C5_round_scheduler [OF ne r]
  from th have "length (rounds_log ?out) = Max ((\<lambda>b. length (data_lines b)) ` set ?B)"
    by (rule conjunct1)
  then have len: "length (rounds_log ?out) = 2" by (simp only: m)
  then have lt: "1 < length (rounds_log ?out)" by (simp only: one_less_numeral_iff semiring_norm)
  have k: "1 < length ?B" by simp
  from th lt k
  have "if 1 < remaining (?B ! 1)
           then \<exists>row. v_sent (rounds_log ?out ! 1 ! 1) = Some row
                    \<and> map_of row ''boat'' = Some (unique_boat_id (?B ! 1))
           else v_slept (rounds_log ?out ! 1 ! 1) = 0 \<and> v_sent (rounds_log ?out ! 1 ! 1) = None"
    by blast
  then have "v_slept (rounds_log ?out ! 1 ! 1) = 0 \<and> v_sent (rounds_log ?out ! 1 ! 1) = None"
    by (simp only: rem less_irrefl if_False)
  with ne r len show ?thesis by blast
qed

text \<open>
  C5 (as stated): every worker with a non-empty batch runs \<open>max (len rows)\<close> rounds. A
  worker whose first publish call raises stops in the first round of two.
\<close>

theorem C5_counterexample:
  "[example_boat 1 2] \<noteq> []
   \<and> length (rounds_log (worker_thread_simulation (\<lambda>p m. False) (\<lambda>t. ''T'')
               [example_boat 1 2] 1000)) = 1
   \<and> Max ((\<lambda>b. length (data_lines b)) ` set [example_boat 1 2]) = 2"
proof -
  have "length (rounds_log (worker_thread_simulation (\<lambda>p m. False) (\<lambda>t. ''T'')
               [example_boat 1 2] 1000)) = 1"
    by code_simp
  moreover have "Max ((\<lambda>b. length (data_lines b)) ` set [example_boat 1 2]) = 2"
    by (simp add: example_boat_def)
  ultimately show ?thesis by simp
qed

lemma constructed_remaining:
  assumes "BoatSimulationState files bid path s e topic = Inr b"
  shows "remaining b = length (data_lines b)" and "sent_count b = 0"
  using constructed_fields [OF assms] by (auto simp: remaining_def)

text \<open>
  C9 (amended): a boat built by the constructor for the window \<open>[s, e)\<close> with
  \<open>0 \<le> s \<le> e\<close>, in the batch of a worker that returns its count, ends with nothing
  pending and has emitted as many records as rows were loaded,
  \<open>min (e - s) (max 0 (rows_in_file - s))\<close>; that is \<open>e - s\<close> when the file holds at
  least \<open>e\<close> rows.
\<close>

theorem C9_emitted_count:
  assumes "BoatSimulationState files bid path s e topic = Inr (B ! k)"
    and "k < length B"
    and "ret (worker_thread_simulation a f B clock0) = Inr n"
    and "files path = Some rows" and "0 \<le> s" and "s \<le> e"
  shows "\<not> has_next_message (final_boats (worker_thread_simulation a f B clock0) ! k)
         \<and> int (sent_count (final_boats (worker_thread_simulation a f B clock0) ! k))
             = min (e - s) (max 0 (int (length rows) - s))
         \<and> (e \<le> int (length rows) \<longrightarrow>
              int (sent_count (final_boats (worker_thread_simulation a f B clock0) ! k)) = e - s)"
proof -
  let ?out = "worker_thread_simulation a f B clock0"
  from assms(2) have ne: "B \<noteq> []" by auto
  from worker_returns [OF assms(3) ne] obtain ws where
    rl: "round_loop a f [0..<max_rounds B] B
           \<lparr>clock = clock0, produced = [], total_messages_sent = 0\<rparr>
         = (final_boats ?out, ws, rounds_log ?out, None)"
    by blast
  from round_loop_ok [OF rl] have "list_all2 (after_rounds (max_rounds B)) B (final_boats ?out)"
    by simp
  with assms(2) have ar: "after_rounds (max_rounds B) (B ! k) (final_boats ?out ! k)"
    by (simp add: list_all2_conv_all_nth)
  from assms(2) have "length (data_lines (B ! k)) \<le> max_rounds B"
    by (intro max_rounds_ge) simp
  with ar constructed_remaining [OF assms(1)]
  have sc: "sent_count (final_boats ?out ! k) = length (data_lines (B ! k))"
    and rm: "remaining (final_boats ?out ! k) = 0"
    by (simp_all add: after_rounds_def)
  from constructed_fields [OF assms(1)] assms(4)
  have dl: "data_lines (B ! k) = take (nat (e - s)) (drop (nat s) rows)"
    by auto
  from assms(5,6) have "int (length (take (nat (e - s)) (drop (nat s) rows)))
      = min (e - s) (max 0 (int (length rows) - s))"
    by (auto simp: min_def max_def)
  with sc dl rm show ?thesis
    by (auto simp: has_next_remaining)
qed

theorem C9_emitted_count_witness:
  "BoatSimulationState example_files 1 ''orderedData/ITA.csv'' 0 2 ''boat_data''
     = Inr ([example_boat 1 2, example_boat 2 1] ! 0)
   \<and> ret (worker_thread_simulation (\<lambda>p m. True) (\<lambda>t. ''T'')
            [example_boat 1 2, example_boat 2 1] 1000) = Inr 3
   \<and> example_files ''orderedData/ITA.csv'' = Some [example_row, example_row]
   \<and> sent_count (final_boats (worker_thread_simulation (\<lambda>p m. True) (\<lambda>t. ''T'')
            [example_boat 1 2, example_boat 2 1] 1000) ! 0) = 2"
proof -
  let ?B = "[example_boat 1 2, example_boat 2 1]"
  let ?out = "worker_thread_simulation (\<lambda>p m. True) (\<lambda>t. ''T'') ?B 1000"
  have c: "BoatSimulationState example_files 1 ''orderedData/ITA.csv'' 0 2 ''boat_data''
     = Inr (?B ! 0)"
    using constructed_example_boat by simp
  have r: "ret ?out = Inr 3" by code_simp
  have fl: "example_files ''orderedData/ITA.csv'' = Some [example_row, example_row]"
    by (simp add: example_files_def)
  from C9_emitted_count [OF c _ r fl]
  have "int (sent_count (final_boats ?out ! 0)) = 2" by simp
  with c r fl show ?thesis by simp
qed

text \<open>
  C9 (as stated): the emitted count equals \<open>end_row - start_row\<close>. A boat with the window
  \<open>[0, 5)\<close> on a file of two rows runs to completion and has emitted two records.
\<close>

theorem C9_counterexample:
  "BoatSimulationState example_files 1 ''orderedData/ITA.csv'' 0 5 ''boat_data''
     = Inr short_window_boat
   \<and> ret (worker_thread_simulation (\<lambda>p m. True) (\<lambda>t. ''T'') [short_window_boat] 1000) = Inr 2
   \<and> map completed (final_boats
        (worker_thread_simulation (\<lambda>p m. True) (\<lambda>t. ''T'') [short_window_boat] 1000)) = [True]
   \<and> map sent_count (final_boats
        (worker_thread_simulation (\<lambda>p m. True) (\<lambda>t. ''T'') [short_window_boat] 1000)) = [2]
   \<and> end_row short_window_boat - start_row short_window_boat = 5"
proof -
  have "BoatSimulationState example_files 1 ''orderedData/ITA.csv'' 0 5 ''boat_data''
     = Inr short_window_boat"
    by (simp add: BoatSimulationState_def load_data_eq example_files_def short_window_boat_def
      format_03d_def last_component_def numeral_2_eq_2)
  moreover have "ret (worker_thread_simulation (\<lambda>p m. True) (\<lambda>t. ''T'') [short_window_boat] 1000)
      = Inr 2"
    by code_simp
  moreover have "map completed (final_boats
        (worker_thread_simulation (\<lambda>p m. True) (\<lambda>t. ''T'') [short_window_boat] 1000)) = [True]"
    by code_simp
  moreover have "map sent_count (final_boats
        (worker_thread_simulation (\<lambda>p m. True) (\<lambda>t. ''T'') [short_window_boat] 1000)) = [2]"
    by code_simp
  moreover have "end_row short_window_boat - start_row short_window_boat = 5"
    by (simp add: short_window_boat_def)
  ultimately show ?thesis by simp
qed

subsection \<open>Publish failures and the total\<close>

lemma collect_results_foldl:
  "foldl (\<lambda>total_messages out.
              case ret out of
                Inr messages_sent \<Rightarrow> total_messages + messages_sent
              | Inl exc \<Rightarrow> total_messages) acc outs
   = acc + sum_list (map (\<lambda>out. case ret out of Inr n \<Rightarrow> n | Inl e \<Rightarrow> 0) outs)"
  by (induction outs arbitrary: acc) (auto split: sum.splits)

lemma collect_results_eq:
  "collect_results outs = sum_list (map (\<lambda>out. case ret out of Inr n \<Rightarrow> n | Inl e \<Rightarrow> 0) outs)"
  unfolding collect_results_def collect_results_foldl by simp

lemma worker_count:
  assumes "ret (worker_thread_simulation a f B clock0) = Inr n"
  shows "n + sum_list (map sent_count B)
           = sum_list (map sent_count (final_boats (worker_thread_simulation a f B clock0)))"
proof (cases "B = []")
  case True
  with assms show ?thesis
    by (simp add: worker_thread_simulation_def)
next
  case False
  from worker_returns [OF assms False] obtain ws where
    rl: "round_loop a f [0..<max_rounds B] B
           \<lparr>clock = clock0, produced = [], total_messages_sent = 0\<rparr>
         = (final_boats (worker_thread_simulation a f B clock0), ws,
            rounds_log (worker_thread_simulation a f B clock0), None)"
    and n: "total_messages_sent ws = n"
    by blast
  from round_loop_ok [OF rl] n show ?thesis by simp
qed

text \<open>
  C8 (amended): when every worker returns its count (no future holds an exception) and
  the boats start with an emitted count of 0, as the constructor leaves them, the total of
  the result loop equals the sum of the emitted counts of all boats of all batches.
\<close>

theorem C8_total_matches:
  assumes "\<forall>out \<in> set (run_workers a f clock0 batches). \<not> isl (ret out)"
    and "\<forall>B \<in> set batches. \<forall>b \<in> set B. sent_count b = 0"
  shows "collect_results (run_workers a f clock0 batches)
           = (\<Sum>out \<leftarrow> run_workers a f clock0 batches. \<Sum>b \<leftarrow> final_boats out. sent_count b)"
proof -
  have "(case ret (worker_thread_simulation a f B clock0) of Inr n \<Rightarrow> n | Inl e \<Rightarrow> 0)
          = sum_list (map sent_count (final_boats (worker_thread_simulation a f B clock0)))"
    if "B \<in> set batches" for B
  proof -
    from that assms(1) have "\<not> isl (ret (worker_thread_simulation a f B clock0))"
      by (simp add: run_workers_def)
    then obtain n where n: "ret (worker_thread_simulation a f B clock0) = Inr n"
      by (cases "ret (worker_thread_simulation a f B clock0)") auto
    from that assms(2) have "sum_list (map sent_count B) = 0"
      by simp
    with worker_count [OF n] n show ?thesis by simp
  qed
  then show ?thesis
    unfolding collect_results_eq run_workers_def
    by (simp add: comp_def cong: map_cong)
qed

theorem C8_total_matches_witness:
  "map ret (run_workers (\<lambda>p m. True) (\<lambda>t. ''T'') 1000 [[example_boat 1 2], [example_boat 2 1], []])
     = [Inr 2, Inr 1, Inr 0]
   \<and> map (map sent_count) [[example_boat 1 2], [example_boat 2 1], []] = [[0], [0], []]
   \<and> collect_results
        (run_workers (\<lambda>p m. True) (\<lambda>t. ''T'') 1000 [[example_boat 1 2], [example_boat 2 1], []]) = 3
   \<and> (\<Sum>out \<leftarrow> run_workers (\<lambda>p m. True) (\<lambda>t. ''T'') 1000
                   [[example_boat 1 2], [example_boat 2 1], []].
         \<Sum>b \<leftarrow> final_boats out. sent_count b) = 3"
proof -
  let ?bs = "[[example_boat 1 2], [example_boat 2 1], []]"
  let ?outs = "run_workers (\<lambda>p m. True) (\<lambda>t. ''T'') 1000 ?bs"
  have r: "map ret ?outs = [Inr 2, Inr 1, Inr 0]" by code_simp
  have h1: "\<forall>out \<in> set ?outs. \<not> isl (ret out)" by code_simp
  have z: "map (map sent_count) ?bs = [[0], [0], []]" by code_simp
  have h2: "\<forall>B \<in> set ?bs. \<forall>b \<in> set B. sent_count b = 0" by code_simp
  have c: "collect_results ?outs = 3" by code_simp
  from C8_total_matches [OF h1 h2] c
  have "(\<Sum>out \<leftarrow> ?outs. \<Sum>b \<leftarrow> final_boats out. sent_count b) = 3" by simp
  with r z c show ?thesis by blast
qed

text \<open>
  C8 (as stated): the total equals the sum of the emitted counts in every run that
  completes. With one worker, one boat of one row and a publish call that raises, the run
  completes with total 0, and the boat's emitted count is 1.
\<close>

theorem C8_counterexample:
  "collect_results (run_workers (\<lambda>p m. False) (\<lambda>t. ''T'') 1000 [[example_boat 1 1]]) = 0
   \<and> (\<Sum>out \<leftarrow> run_workers (\<lambda>p m. False) (\<lambda>t. ''T'') 1000 [[example_boat 1 1]].
         \<Sum>b \<leftarrow> final_boats out. sent_count b) = 1"
proof -
  have "collect_results (run_workers (\<lambda>p m. False) (\<lambda>t. ''T'') 1000 [[example_boat 1 1]]) = 0"
    by code_simp
  moreover have "(\<Sum>out \<leftarrow> run_workers (\<lambda>p m. False) (\<lambda>t. ''T'') 1000 [[example_boat 1 1]].
         \<Sum>b \<leftarrow> final_boats out. sent_count b) = 1"
    by code_simp
  ultimately show ?thesis by blast
qed

text \<open>
  C2 (amended): a publish call that fails raises out of \<^verbatim>\<open>worker_thread_simulation\<close>.
  The future of a worker holds either a count, and then every message handed to the
  producer was accepted, or \<open>PublishError\<close>, and then the refused message is the last
  thing the worker did: the messages handed over are the accepted ones followed by the
  refused one, and the log ends with its visit. The result loop adds the count of a worker
  that returned and adds nothing for one that raised, and goes on with the other futures.
\<close>

theorem C2_publish_failure_raises:
  "(case ret (worker_thread_simulation a f B clock0) of
      Inr n \<Rightarrow>
        handed_log (rounds_log (worker_thread_simulation a f B clock0))
          = produced (final_state (worker_thread_simulation a f B clock0))
    | Inl e \<Rightarrow>
        e = PublishError
        \<and> (\<exists>m. handed_log (rounds_log (worker_thread_simulation a f B clock0))
                  = produced (final_state (worker_thread_simulation a f B clock0)) @ [m]
               \<and> \<not> a (produced (final_state (worker_thread_simulation a f B clock0))) m
               \<and> v_sent (last (last (rounds_log (worker_thread_simulation a f B clock0))))
                   = Some m))
   \<and> collect_results (outs1 @ worker_thread_simulation a f B clock0 # outs2)
       = (case ret (worker_thread_simulation a f B clock0) of
            Inr n \<Rightarrow> collect_results (outs1 @ outs2) + n
          | Inl e \<Rightarrow> collect_results (outs1 @ outs2))"
proof
  let ?out = "worker_thread_simulation a f B clock0"
  let ?ws0 = "\<lparr>clock = clock0, produced = [], total_messages_sent = 0\<rparr>"
  show "case ret ?out of
      Inr n \<Rightarrow> handed_log (rounds_log ?out) = produced (final_state ?out)
    | Inl e \<Rightarrow>
        e = PublishError
        \<and> (\<exists>m. handed_log (rounds_log ?out) = produced (final_state ?out) @ [m]
               \<and> \<not> a (produced (final_state ?out)) m
               \<and> v_sent (last (last (rounds_log ?out))) = Some m)"
  proof (cases "B = []")
    case True
    then show ?thesis
      by (simp add: worker_thread_simulation_def handed_log_def)
  next
    case False
    obtain bs ws vss ex where
      rl: "round_loop a f [0..<max_rounds B] B ?ws0 = (bs, ws, vss, ex)"
      by (cases "round_loop a f [0..<max_rounds B] B ?ws0") auto
    show ?thesis
    proof (cases ex)
      case None
      from round_loop_ok [OF rl [unfolded None]] have "produced ws = handed_log vss" by simp
      with False rl None show ?thesis
        by (simp add: worker_thread_simulation_def)
    next
      case (Some e)
      from round_loop_raised [OF rl [unfolded Some]] False rl Some show ?thesis
        by (auto simp: worker_thread_simulation_def)
    qed
  qed
  show "collect_results (outs1 @ ?out # outs2)
       = (case ret ?out of
            Inr n \<Rightarrow> collect_results (outs1 @ outs2) + n
          | Inl e \<Rightarrow> collect_results (outs1 @ outs2))"
    by (simp add: collect_results_eq split: sum.splits)
qed

text \<open>
  C2 (as stated): a single publish failure never aborts the worker. Two boats of two rows
  each, and a sink that refuses the messages of the first boat only: the worker raises at
  the first record, in the first of two rounds; the second boat is never visited although
  both boats still have rows pending and the sink would take the second boat's.
\<close>

theorem C2_counterexample:
  "ret (worker_thread_simulation reject_boat_001 (\<lambda>t. ''T'')
         [example_boat 1 2, example_boat 2 2] 1000) = Inl PublishError
   \<and> produced (final_state (worker_thread_simulation reject_boat_001 (\<lambda>t. ''T'')
         [example_boat 1 2, example_boat 2 2] 1000)) = []
   \<and> map has_next_message (final_boats (worker_thread_simulation reject_boat_001 (\<lambda>t. ''T'')
         [example_boat 1 2, example_boat 2 2] 1000)) = [True, True]
   \<and> map sent_count (final_boats (worker_thread_simulation reject_boat_001 (\<lambda>t. ''T'')
         [example_boat 1 2, example_boat 2 2] 1000)) = [1, 0]
   \<and> map length (rounds_log (worker_thread_simulation reject_boat_001 (\<lambda>t. ''T'')
         [example_boat 1 2, example_boat 2 2] 1000)) = [1]
   \<and> max_rounds [example_boat 1 2, example_boat 2 2] = 2"
proof -
  let ?out = "worker_thread_simulation reject_boat_001 (\<lambda>t. ''T'')
         [example_boat 1 2, example_boat 2 2] 1000"
  have "ret ?out = Inl PublishError" by code_simp
  moreover have "produced (final_state ?out) = []" by code_simp
  moreover have "map has_next_message (final_boats ?out) = [True, True]" by code_simp
  moreover have "map sent_count (final_boats ?out) = [1, 0]" by code_simp
  moreover have "map length (rounds_log ?out) = [1]" by code_simp
  moreover have "max_rounds [example_boat 1 2, example_boat 2 2] = 2" by code_simp
  ultimately show ?thesis by blast
qed

subsection \<open>The claim phase\<close>

lemma sum_list_map_update:
  fixes g :: "'a \<Rightarrow> 'b::comm_monoid_add"
  assumes "i < length xs"
  shows "sum_list (map g (xs[i := y])) + g (xs ! i) = sum_list (map g xs) + g y"
  using assms
proof (induction xs arbitrary: i)
  case Nil
  then show ?case by simp
next
  case (Cons x xs)
  show ?case
  proof (cases i)
    case 0
    then show ?thesis by (simp add: ac_simps)
  next
    case (Suc j)
    with Cons.prems have "j < length xs" by simp
    from Cons.IH [OF this] Suc show ?thesis
      by (simp add: ac_simps)
  qed
qed

lemma claim_inv_init:
  "claim_inv C W queue0 \<lparr>boat_queue = queue0, workers = replicate W ([], False)\<rparr>"
proof -
  have "sum_list (replicate W ({#}::boat multiset)) = {#}"
    by (induction W) simp_all
  then show ?thesis
    by (simp add: claim_inv_def claim_ok_def list_all_iff sum_list_replicate)
qed

lemma claim_step_length: "length (workers (claim_step C cfg i)) = length (workers cfg)"
  by (auto simp: claim_step_def Let_def split: prod.splits list.splits)

lemma list_all_update:
  assumes "list_all P xs" and "P y"
  shows "list_all P (xs[i := y])"
  using assms set_update_subset_insert [of xs i y]
  by (auto simp: list_all_iff)

lemma claim_inv_step:
  assumes "claim_inv C W queue0 cfg"
  shows "claim_inv C W queue0 (claim_step C cfg i)"
proof (cases "i < length (workers cfg)")
  case False
  with assms show ?thesis by (simp add: claim_step_def)
next
  case i: True
  obtain l d where w: "workers cfg ! i = (l, d)" by (cases "workers cfg ! i")
  let ?k = "sum_list (map (length \<circ> fst) (workers cfg))"
  from assms have len: "length (workers cfg) = W" and k: "?k \<le> length queue0"
    and q: "boat_queue cfg = drop ?k queue0"
    and m: "sum_list (map (mset \<circ> fst) (workers cfg)) = mset (take ?k queue0)"
    and all: "list_all (claim_ok C (boat_queue cfg)) (workers cfg)"
    unfolding claim_inv_def by blast+
  from all i w have l: "length l \<le> nat C"
    by (auto simp: list_all_length claim_ok_def)
  show ?thesis
  proof (cases d)
    case True
    with i w assms show ?thesis by (simp add: claim_step_def)
  next
    case nd: False
    show ?thesis
    proof (cases "int (length l) < C")
      case False
      with l have eq: "length l = nat C" by linarith
      from False i w nd
      have st: "claim_step C cfg i = cfg\<lparr>workers := (workers cfg)[i := (l, True)]\<rparr>"
        by (simp add: claim_step_def)
      from sum_list_map_update [OF i, of "length \<circ> fst" "(l, True)"] w
      have s1: "sum_list (map (length \<circ> fst) ((workers cfg)[i := (l, True)])) = ?k"
        by simp
      from sum_list_map_update [OF i, of "mset \<circ> fst" "(l, True)"] w
      have s2: "sum_list (map (mset \<circ> fst) ((workers cfg)[i := (l, True)]))
                  = sum_list (map (mset \<circ> fst) (workers cfg))"
        by simp
      from all eq have "list_all (claim_ok C (boat_queue cfg)) ((workers cfg)[i := (l, True)])"
        by (intro list_all_update) (simp_all add: claim_ok_def)
      with len k q m s1 s2 show ?thesis
        unfolding st by (simp add: claim_inv_def)
    next
      case lt: True
      show ?thesis
      proof (cases "boat_queue cfg")
        case Nil
        with lt i w nd
        have st: "claim_step C cfg i = cfg\<lparr>workers := (workers cfg)[i := (l, True)]\<rparr>"
          by (simp add: claim_step_def)
        from sum_list_map_update [OF i, of "length \<circ> fst" "(l, True)"] w
        have s1: "sum_list (map (length \<circ> fst) ((workers cfg)[i := (l, True)])) = ?k"
          by simp
        from sum_list_map_update [OF i, of "mset \<circ> fst" "(l, True)"] w
        have s2: "sum_list (map (mset \<circ> fst) ((workers cfg)[i := (l, True)]))
                  = sum_list (map (mset \<circ> fst) (workers cfg))"
          by simp
        from all l Nil have "list_all (claim_ok C (boat_queue cfg)) ((workers cfg)[i := (l, True)])"
          by (intro list_all_update) (simp_all add: claim_ok_def)
        with len k q m s1 s2 show ?thesis
          unfolding st by (simp add: claim_inv_def)
      next
        case (Cons b rest)
        with lt i w nd
        have st: "claim_step C cfg i
            = cfg\<lparr>boat_queue := rest, workers := (workers cfg)[i := (l @ [b], False)]\<rparr>"
          by (simp add: claim_step_def)
        from Cons q have dr: "drop ?k queue0 = b # rest" by simp
        then have klt: "?k < length queue0"
          by (cases "?k < length queue0") simp_all
        then have "drop ?k queue0 = queue0 ! ?k # drop (Suc ?k) queue0"
          by (rule Cons_nth_drop_Suc [symmetric])
        with dr have b: "queue0 ! ?k = b" and rest: "rest = drop (Suc ?k) queue0"
          by simp_all
        from sum_list_map_update [OF i, of "length \<circ> fst" "(l @ [b], False)"] w
        have s1: "sum_list (map (length \<circ> fst) ((workers cfg)[i := (l @ [b], False)])) = Suc ?k"
          by simp
        from sum_list_map_update [OF i, of "mset \<circ> fst" "(l @ [b], False)"] w
        have s2: "sum_list (map (mset \<circ> fst) ((workers cfg)[i := (l @ [b], False)]))
                  = sum_list (map (mset \<circ> fst) (workers cfg)) + {#b#}"
          by simp
        from klt b have tk: "mset (take (Suc ?k) queue0) = mset (take ?k queue0) + {#b#}"
          by (simp add: take_Suc_conv_app_nth)
        from all Cons have "list_all (claim_ok C rest) (workers cfg)"
          by (auto simp: list_all_iff claim_ok_def)
        moreover from lt have "claim_ok C rest (l @ [b], False)"
          by (simp add: claim_ok_def)
        ultimately have "list_all (claim_ok C rest) ((workers cfg)[i := (l @ [b], False)])"
          by (rule list_all_update)
        with len klt rest m s1 s2 tk show ?thesis
          unfolding st by (simp add: claim_inv_def)
      qed
    qed
  qed
qed

lemma claim_inv_phase: "claim_inv C W queue0 (claim_phase C W queue0 schedule)"
proof -
  have "claim_inv C W queue0 (foldl (claim_step C) cfg schedule)"
    if "claim_inv C W queue0 cfg" for cfg
    using that by (induction schedule arbitrary: cfg) (simp_all add: claim_inv_step)
  then show ?thesis
    unfolding claim_phase_def using claim_inv_init by blast
qed


lemma sum_list_le_const:
  assumes "\<forall>x \<in> set xs. g x \<le> (c::nat)"
  shows "sum_list (map g xs) \<le> length xs * c"
  using assms by (induction xs) auto

lemma sum_list_eq_const:
  assumes "\<forall>x \<in> set xs. g x = (c::nat)"
  shows "sum_list (map g xs) = length xs * c"
  using assms by (induction xs) auto

lemma claim_phase_final:
  assumes "all_left (claim_phase C W queue0 schedule)"
  shows "boat_queue (claim_phase C W queue0 schedule) = drop (W * nat C) queue0"
    and "mset (concat (claimed (claim_phase C W queue0 schedule)))
           = mset (take (W * nat C) queue0)"
    and "length (claimed (claim_phase C W queue0 schedule)) = W"
    and "list_all (\<lambda>local_boats. length local_boats \<le> nat C)
           (claimed (claim_phase C W queue0 schedule))"
proof -
  let ?cfg = "claim_phase C W queue0 schedule"
  let ?k = "sum_list (map (length \<circ> fst) (workers ?cfg))"
  from claim_inv_phase [of C W queue0 schedule]
  have len: "length (workers ?cfg) = W" and k: "?k \<le> length queue0"
    and q: "boat_queue ?cfg = drop ?k queue0"
    and m: "sum_list (map (mset \<circ> fst) (workers ?cfg)) = mset (take ?k queue0)"
    and all: "list_all (claim_ok C (boat_queue ?cfg)) (workers ?cfg)"
    unfolding claim_inv_def by blast+
  from all have le: "\<forall>w \<in> set (workers ?cfg). (length \<circ> fst) w \<le> nat C"
    by (auto simp: list_all_iff claim_ok_def)
  from sum_list_le_const [OF le] have kle: "?k \<le> W * nat C" unfolding len .
  have cut: "drop ?k queue0 = drop (W * nat C) queue0
             \<and> take ?k queue0 = take (W * nat C) queue0"
  proof (cases "boat_queue ?cfg = []")
    case True
    with q k have "?k = length queue0" by simp
    with kle show ?thesis by simp
  next
    case False
    with all assms have "\<forall>w \<in> set (workers ?cfg). (length \<circ> fst) w = nat C"
      by (auto simp: list_all_iff claim_ok_def all_left_def)
    from sum_list_eq_const [OF this] have "?k = W * nat C" unfolding len .
    then show ?thesis by simp
  qed
  from q cut show "boat_queue ?cfg = drop (W * nat C) queue0" by simp
  have "mset (concat (claimed ?cfg)) = sum_list (map (mset \<circ> fst) (workers ?cfg))"
    by (simp add: claimed_def mset_concat comp_def)
  with m cut show "mset (concat (claimed ?cfg)) = mset (take (W * nat C) queue0)" by simp
  from len show "length (claimed ?cfg) = W" by (simp add: claimed_def)
  from le show "list_all (\<lambda>local_boats. length local_boats \<le> nat C) (claimed ?cfg)"
    by (simp add: claimed_def list_all_iff)
qed

text \<open>
  C4: \<open>W\<close> workers claim from a queue of \<open>N\<close> boats with capacity \<open>C\<close>, one
  atomic dequeue at a time, in any order. When all workers have left the claim loop, the
  boats claimed are the first \<open>W * C\<close> boats of the queue, each once, and the queue holds
  the others, untouched: nothing is left when \<open>N \<le> W * C\<close>, and exactly
  \<open>N - W * C\<close> boats are left otherwise. With distinct ids in the queue no id occurs
  twice among the batches and the rest of the queue. (\<open>claim_phase_fair\<close>: all workers
  have left as soon as each had more than \<open>C\<close> turns.)
\<close>

theorem C4_claim_coverage:
  assumes "all_left (claim_phase C W queue0 schedule)"
  shows "boat_queue (claim_phase C W queue0 schedule) = drop (W * nat C) queue0
         \<and> mset (concat (claimed (claim_phase C W queue0 schedule)))
             = mset (take (W * nat C) queue0)
         \<and> (length queue0 \<le> W * nat C \<longrightarrow>
               boat_queue (claim_phase C W queue0 schedule) = []
               \<and> mset (concat (claimed (claim_phase C W queue0 schedule))) = mset queue0)
         \<and> (W * nat C < length queue0 \<longrightarrow>
               length (boat_queue (claim_phase C W queue0 schedule))
                 = length queue0 - W * nat C
               \<and> length (concat (claimed (claim_phase C W queue0 schedule))) = W * nat C)
         \<and> (distinct (map boat_id queue0) \<longrightarrow>
               distinct (map boat_id (concat (claimed (claim_phase C W queue0 schedule))
                                      @ boat_queue (claim_phase C W queue0 schedule))))"
proof -
  let ?cfg = "claim_phase C W queue0 schedule"
  note fin = claim_phase_final [OF assms]
  have sz: "length (concat (claimed ?cfg)) = length (take (W * nat C) queue0)"
    using fin(2) by (rule mset_eq_length)
  have "mset (concat (claimed ?cfg) @ boat_queue ?cfg)
          = mset (take (W * nat C) queue0 @ drop (W * nat C) queue0)"
    using fin(1,2) by (simp only: mset_append)
  then have "mset (concat (claimed ?cfg) @ boat_queue ?cfg) = mset queue0"
    by (simp only: append_take_drop_id)
  then have "mset (map boat_id (concat (claimed ?cfg) @ boat_queue ?cfg))
               = mset (map boat_id queue0)"
    by (metis mset_map)
  then have "distinct (map boat_id (concat (claimed ?cfg) @ boat_queue ?cfg))
               \<longleftrightarrow> distinct (map boat_id queue0)"
    by (rule mset_eq_imp_distinct_iff)
  with fin(1,2) sz show ?thesis
    by simp
qed


lemma claim_phase_snoc:
  "claim_phase C W queue0 (schedule @ [i]) = claim_step C (claim_phase C W queue0 schedule) i"
  by (simp add: claim_phase_def)

lemma claim_step_other:
  "j \<noteq> i \<Longrightarrow> workers (claim_step C cfg i) ! j = workers cfg ! j"
  by (auto simp: claim_step_def Let_def split: prod.splits list.splits)

lemma claim_step_self:
  assumes "i < length (workers cfg)"
  shows "snd (workers (claim_step C cfg i) ! i)
         \<or> length (fst (workers (claim_step C cfg i) ! i)) = Suc (length (fst (workers cfg ! i)))"
  using assms
  by (auto simp: claim_step_def Let_def split: prod.splits list.splits)

lemma claim_phase_progress:
  "\<forall>i < W. snd (workers (claim_phase C W queue0 schedule) ! i)
           \<or> count_list schedule i \<le> length (fst (workers (claim_phase C W queue0 schedule) ! i))"
proof (induction schedule rule: rev_induct)
  case Nil
  then show ?case by simp
next
  case (snoc x xs)
  let ?cfg = "claim_phase C W queue0 xs"
  from claim_inv_phase [of C W queue0 xs] have len: "length (workers ?cfg) = W"
    unfolding claim_inv_def by blast
  show ?case
  proof (intro allI impI)
    fix i assume i: "i < W"
    show "snd (workers (claim_phase C W queue0 (xs @ [x])) ! i)
           \<or> count_list (xs @ [x]) i
               \<le> length (fst (workers (claim_phase C W queue0 (xs @ [x])) ! i))"
    proof (cases "i = x")
      case False
      with snoc i show ?thesis
        by (simp add: claim_phase_snoc claim_step_other)
    next
      case True
      with i len have "x < length (workers ?cfg)" by simp
      from claim_step_self [OF this, of C] snoc i True show ?thesis
        by (auto simp: claim_phase_snoc claim_step_def Let_def split: prod.splits)
    qed
  qed
qed

lemma claim_phase_fair:
  assumes "\<forall>i < W. nat C < count_list schedule i"
  shows "all_left (claim_phase C W queue0 schedule)"
proof -
  let ?cfg = "claim_phase C W queue0 schedule"
  from claim_inv_phase [of C W queue0 schedule]
  have len: "length (workers ?cfg) = W"
    and all: "list_all (claim_ok C (boat_queue ?cfg)) (workers ?cfg)"
    unfolding claim_inv_def by blast+
  have "snd (workers ?cfg ! i)" if "i < W" for i
  proof (rule ccontr)
    assume n: "\<not> snd (workers ?cfg ! i)"
    with claim_phase_progress [of W C queue0 schedule] that
    have "count_list schedule i \<le> length (fst (workers ?cfg ! i))" by blast
    moreover from all that len have "length (fst (workers ?cfg ! i)) \<le> nat C"
      by (simp add: list_all_length claim_ok_def)
    ultimately show False using assms that by fastforce
  qed
  with len show ?thesis
    by (simp add: all_left_def list_all_length)
qed

theorem C4_claim_coverage_witness:
  "all_left (claim_phase 2 3 example_queue [0, 1, 2, 0, 0, 1, 2, 1, 2])
   \<and> map boat_id (boat_queue (claim_phase 2 3 example_queue [0, 1, 2, 0, 0, 1, 2, 1, 2])) = [7, 8]
   \<and> map (map boat_id) (claimed (claim_phase 2 3 example_queue [0, 1, 2, 0, 0, 1, 2, 1, 2]))
       = [[1, 4], [2, 5], [3, 6]]
   \<and> length example_queue = 8"
proof -
  let ?cfg = "claim_phase 2 3 example_queue [0, 1, 2, 0, 0, 1, 2, 1, 2]"
  have h: "all_left ?cfg" by code_simp
  have c: "map (map boat_id) (claimed ?cfg) = [[1, 4], [2, 5], [3, 6]]" by code_simp
  have l: "length example_queue = 8" by (simp add: example_queue_def)
  from C4_claim_coverage [OF h] have "boat_queue ?cfg = drop (3 * nat 2) example_queue"
    by (rule conjunct1)
  then have "map boat_id (boat_queue ?cfg) = [7, 8]"
    by (simp add: example_queue_def example_boat_def)
  with h c l show ?thesis by blast
qed

end
